theory Spec2Isabelle
  imports Complex_Main
begin

text \<open>
  A model of the batch image optimiser: the component \<open>App\<close> of \<open>src/App.tsx\<close> with the types
  of \<open>src/types.ts\<close>, and the function \<open>toSafeSlug\<close> of the serverless naming function. The
  state of the component is a record that each operation takes and returns; what the
  browser, the compression engine and the naming service do is a parameter \<open>env\<close>; a rejected
  promise or a thrown exception is a value.
\<close>

section \<open>JavaScript strings\<close>

text \<open>
  A JavaScript string is a sequence of UTF-16 code units; a code unit is modelled by its
  number. \<open>js\<close> turns a literal of the theory into such a sequence.
\<close>

type_synonym jsstring = "nat list"

definition js :: "string \<Rightarrow> jsstring" where
  "js s = map of_char s"

definition hyphen :: nat where "hyphen = 45"
definition dot :: nat where "dot = 46"
definition comma :: nat where "comma = 44"
definition slash :: nat where "slash = 47"

text \<open>
  The code units that \<open>String.prototype.trim\<close> removes and that the class \<open>\s\<close> of a regular
  expression matches: the white space and line terminator code points of ECMAScript.
\<close>

definition is_space :: "nat \<Rightarrow> bool" where
  "is_space c \<longleftrightarrow>
     (9 \<le> c \<and> c \<le> 13) \<or> c = 32 \<or> c = 160 \<or> c = 5760 \<or> (8192 \<le> c \<and> c \<le> 8202) \<or>
     c = 8232 \<or> c = 8233 \<or> c = 8239 \<or> c = 8287 \<or> c = 12288 \<or> c = 65279"

definition is_digit :: "nat \<Rightarrow> bool" where
  "is_digit c \<longleftrightarrow> 48 \<le> c \<and> c \<le> 57"

definition is_lower :: "nat \<Rightarrow> bool" where
  "is_lower c \<longleftrightarrow> 97 \<le> c \<and> c \<le> 122"

definition is_upper :: "nat \<Rightarrow> bool" where
  "is_upper c \<longleftrightarrow> 65 \<le> c \<and> c \<le> 90"

definition trim :: "jsstring \<Rightarrow> jsstring" where
  "trim s = rev (dropWhile is_space (rev (dropWhile is_space s)))"

text \<open>
  \<open>s.replace(/X+/g, r)\<close> for a class \<open>X\<close> of code units: every maximal run of units of the class
  is replaced by \<open>r\<close>.
\<close>

function replace_runs :: "(nat \<Rightarrow> bool) \<Rightarrow> jsstring \<Rightarrow> jsstring \<Rightarrow> jsstring" where
  "replace_runs P r [] = []"
| "replace_runs P r (c # cs) =
     (if P c then r @ replace_runs P r (dropWhile P cs) else c # replace_runs P r cs)"
  by pat_completeness auto
termination
  by (relation "measure (\<lambda>(P, r, s). length s)") (auto simp: le_imp_less_Suc length_dropWhile_le)

text \<open>
  \<open>s.replace(/\.X+$/, '')\<close> for a class \<open>X\<close>: the search tries each position from the left, and
  a match is a dot whose rest, up to the end of the string, is a non-empty run of units of the
  class. The match reaches the end, so nothing is kept behind it.
\<close>

fun strip_dot_suffix :: "(nat \<Rightarrow> bool) \<Rightarrow> jsstring \<Rightarrow> jsstring" where
  "strip_dot_suffix P [] = []"
| "strip_dot_suffix P (c # cs) =
     (if c = dot \<and> cs \<noteq> [] \<and> list_all P cs then [] else c # strip_dot_suffix P cs)"

text \<open>
  \<open>String.prototype.toLowerCase\<close>. The upper case letters of ASCII move to their lower case
  forms; U+0130 becomes \<open>i\<close> followed by U+0307, and the Kelvin sign U+212A becomes \<open>k\<close>. Every
  other code unit outside ASCII has a lower case form outside ASCII again, of the same length;
  the model leaves such a unit as it is.
\<close>

definition lower_unit :: "nat \<Rightarrow> jsstring" where
  "lower_unit c =
     (if is_upper c then [c + 32]
      else if c = 304 then [105, 775]
      else if c = 8490 then [107]
      else [c])"

definition toLowerCase :: "jsstring \<Rightarrow> jsstring" where
  "toLowerCase s = concat (map lower_unit s)"

text \<open>\<open>s.split(d)\<close> for a separator of one code unit: never an empty array.\<close>

fun split_on :: "nat \<Rightarrow> jsstring \<Rightarrow> jsstring list" where
  "split_on d [] = [[]]"
| "split_on d (c # cs) =
     (if c = d then [] # split_on d cs
      else (case split_on d cs of [] \<Rightarrow> [[c]] | x # xs \<Rightarrow> (c # x) # xs))"

definition truthy :: "jsstring option \<Rightarrow> bool" where
  "truthy v = (case v of None \<Rightarrow> False | Some s \<Rightarrow> s \<noteq> [])"

section \<open>The naming service: \<open>toSafeSlug\<close>\<close>

definition is_ext_unit :: "nat \<Rightarrow> bool" where
  "is_ext_unit c \<longleftrightarrow> is_lower c \<or> is_upper c \<or> is_digit c"

definition is_slug_unit :: "nat \<Rightarrow> bool" where
  "is_slug_unit c \<longleftrightarrow> is_lower c \<or> is_digit c \<or> c = hyphen"

definition replace_unsafe :: "jsstring \<Rightarrow> jsstring" where
  "replace_unsafe s = map (\<lambda>c. if is_slug_unit c then c else hyphen) s"

text \<open>
  \<open>s.replace(/^-|-$/g, '')\<close>: the first alternative matches a hyphen at index 0 only, the second
  a hyphen that is the last unit; at most one unit goes at each end.
\<close>

definition strip_edge_hyphens :: "jsstring \<Rightarrow> jsstring" where
  "strip_edge_hyphens s =
     (let s1 = (case s of [] \<Rightarrow> [] | c # cs \<Rightarrow> if c = hyphen then cs else s)
      in if s1 \<noteq> [] \<and> last s1 = hyphen then butlast s1 else s1)"

definition slug_base :: "jsstring \<Rightarrow> jsstring" where
  "slug_base text =
     strip_edge_hyphens
       (replace_runs (\<lambda>c. c = hyphen) [hyphen]
         (replace_unsafe
           (toLowerCase
             (replace_runs is_space [hyphen]
               (strip_dot_suffix is_ext_unit (trim text))))))"

definition toSafeSlug :: "jsstring \<Rightarrow> jsstring" where
  "toSafeSlug text =
     (let base = slug_base text in if base = [] then js ''optimized-image'' else base)"

text \<open>
  The slug as the specification words it, each step written out on its own and without the
  operations of the code. White space is the white space of Unicode with the line
  terminators and the byte order mark; an extension is a last dot with letters or digits of
  ASCII behind it, at least one, up to the end.
\<close>

definition spec_whitespace :: "nat list" where
  "spec_whitespace =
     [9, 10, 11, 12, 13, 32, 160, 5760, 8192, 8193, 8194, 8195, 8196, 8197, 8198, 8199, 8200,
      8201, 8202, 8232, 8233, 8239, 8287, 12288, 65279]"

definition spec_upper :: jsstring where
  "spec_upper = js ''ABCDEFGHIJKLMNOPQRSTUVWXYZ''"

definition spec_lower :: jsstring where
  "spec_lower = js ''abcdefghijklmnopqrstuvwxyz''"

definition spec_digits :: jsstring where
  "spec_digits = js ''0123456789''"

fun strip_leading :: "nat list \<Rightarrow> jsstring \<Rightarrow> jsstring" where
  "strip_leading cls [] = []"
| "strip_leading cls (c # cs) = (if c \<in> set cls then strip_leading cls cs else c # cs)"

fun strip_trailing :: "nat list \<Rightarrow> jsstring \<Rightarrow> jsstring" where
  "strip_trailing cls [] = []"
| "strip_trailing cls (c # cs) =
     (let rest = strip_trailing cls cs in if rest = [] \<and> c \<in> set cls then [] else c # rest)"

text \<open>
  \<open>extension_start cls s\<close> is the number of units before a last dot of \<open>s\<close> that has only units
  of \<open>cls\<close> behind it, and at least one.
\<close>

fun extension_start :: "nat list \<Rightarrow> jsstring \<Rightarrow> nat option" where
  "extension_start cls [] = None"
| "extension_start cls (c # cs) =
     (case extension_start cls cs of
        Some n \<Rightarrow> Some (Suc n)
      | None \<Rightarrow> if c = 46 \<and> cs \<noteq> [] \<and> set cs \<subseteq> set cls then Some 0 else None)"

definition strip_extension :: "jsstring \<Rightarrow> jsstring" where
  "strip_extension s =
     (case extension_start (spec_upper @ spec_lower @ spec_digits) s of
        Some n \<Rightarrow> take n s
      | None \<Rightarrow> s)"

text \<open>
  \<open>collapse_to_hyphen cls s\<close>: a unit of \<open>cls\<close> that is followed by another one is dropped, and
  the last of a run becomes a hyphen.
\<close>

fun collapse_to_hyphen :: "nat list \<Rightarrow> jsstring \<Rightarrow> jsstring" where
  "collapse_to_hyphen cls (a # b # cs) =
     (if a \<in> set cls \<and> b \<in> set cls then collapse_to_hyphen cls (b # cs)
      else (if a \<in> set cls then 45 else a) # collapse_to_hyphen cls (b # cs))"
| "collapse_to_hyphen cls [a] = [if a \<in> set cls then 45 else a]"
| "collapse_to_hyphen cls [] = []"

text \<open>
  The lower case of a unit: the letter at the same place of the lower case alphabet for an
  upper case letter of ASCII; the two units outside ASCII whose lower case begins with a
  letter of ASCII, U+0130 and the Kelvin sign; every other unit is kept.
\<close>

definition lowercase_unit :: "nat \<Rightarrow> jsstring" where
  "lowercase_unit c =
     (case map_of (zip spec_upper spec_lower) c of
        Some l \<Rightarrow> [l]
      | None \<Rightarrow> if c = 304 then [105, 775] else if c = 8490 then [107] else [c])"

definition slugify_spec :: "jsstring \<Rightarrow> jsstring" where
  "slugify_spec text =
     (let trimmed = strip_trailing spec_whitespace (strip_leading spec_whitespace text);
          stem = strip_extension trimmed;
          spaced = collapse_to_hyphen spec_whitespace stem;
          lowered = concat (map lowercase_unit spaced);
          safe = map (\<lambda>c. if c \<in> set (spec_lower @ spec_digits @ [45]) then c else 45) lowered;
          collapsed = collapse_to_hyphen [45] safe;
          stripped = strip_trailing [45] (strip_leading [45] collapsed)
      in if stripped = [] then js ''optimized-image'' else stripped)"

fun no_double :: "jsstring \<Rightarrow> bool" where
  "no_double (a # b # cs) = (\<not> (a = hyphen \<and> b = hyphen) \<and> no_double (b # cs))"
| "no_double _ = True"

text \<open>
  A slug that is safe as a file name: it is not empty, has only units of \<open>[a-z0-9-]\<close>, has no
  two hyphens in a row, and neither starts nor ends with a hyphen.
\<close>

definition clean_slug :: "jsstring \<Rightarrow> bool" where
  "clean_slug s \<longleftrightarrow>
     s \<noteq> [] \<and> list_all is_slug_unit s \<and> no_double s \<and> hd s \<noteq> hyphen \<and> last s \<noteq> hyphen"

section \<open>JavaScript numbers\<close>

text \<open>
  A number of JavaScript is an IEEE 754 double. The finite doubles are the reals
  \<open>m * 2 ^ (e - 52)\<close> for an integer \<open>m\<close> of magnitude below \<open>2 ^ 53\<close> and an exponent \<open>e\<close> from
  -1022 to 1023, and an arithmetic operation returns the double nearest to its exact result,
  the one with the even \<open>m\<close> when two doubles are as near.

  \<open>first_exp P i j\<close> is the first exponent from \<open>i\<close> on that satisfies \<open>P\<close>, and \<open>j\<close> when there
  is none below \<open>j\<close>. \<open>double_exp x\<close> is the exponent of the doubles around \<open>x\<close>: the \<open>e\<close> with
  \<open>2 ^ e \<le> |x| < 2 ^ (e + 1)\<close>, and -1022 in the subnormal range below. \<open>ulp x\<close> is the distance
  between two neighbouring doubles there, \<open>round_even\<close> rounds a real to the nearest integer
  and a half to the even one, and \<open>fl x\<close> is the double that the exact result \<open>x\<close> is rounded to.
  A result of magnitude \<open>2 ^ 1024\<close> or more is \<open>Infinity\<close> in JavaScript and is outside this
  model, which keeps such a result as it is. The operations of the program are quotients by
  a divisor of at least 1, products with a factor of at most 1, and the sum of 10 and such
  a product: none of them leaves the finite doubles when its operands are finite doubles.
\<close>

function first_exp :: "(int \<Rightarrow> bool) \<Rightarrow> int \<Rightarrow> int \<Rightarrow> int" where
  "first_exp P i j = (if j \<le> i then j else if P i then i else first_exp P (i + 1) j)"
  by pat_completeness auto
termination
  by (relation "measure (\<lambda>(P, i, j). nat (j - i))") auto

definition double_exp :: "real \<Rightarrow> int" where
  "double_exp x = first_exp (\<lambda>e. \<bar>x\<bar> < 2 powi (e + 1)) (- 1022) 1023"

definition ulp :: "real \<Rightarrow> real" where
  "ulp x = 2 powi (double_exp x - 52)"

definition round_even :: "real \<Rightarrow> int" where
  "round_even x =
     (let f = \<lfloor>x\<rfloor>; d = x - of_int f
      in if d < 1 / 2 then f else if 1 / 2 < d then f + 1 else if even f then f else f + 1)"

definition fl :: "real \<Rightarrow> real" where
  "fl x = of_int (round_even (x / ulp x)) * ulp x"

section \<open>The data model (\<open>types.ts\<close>)\<close>

datatype ProcessingStatus = Pending | Processing | Completed | Error

datatype TargetFormat = Original | Webp | Avif | Jpeg | Png

fun format_string :: "TargetFormat \<Rightarrow> jsstring" where
  "format_string Original = js ''original''"
| "format_string Webp = js ''webp''"
| "format_string Avif = js ''avif''"
| "format_string Jpeg = js ''jpeg''"
| "format_string Png = js ''png''"

text \<open>
  A JavaScript number, for the bounds of the settings: a finite double, given as the real
  that it stands for, or one of the values that \<open>Number.isFinite\<close> rejects.
\<close>

datatype jsnumber = Num real | PosInfinity | NegInfinity | NaN

record ProcessingSettings =
  targetFormat :: TargetFormat
  quality :: real
  maxWidth :: jsnumber
  maxHeight :: jsnumber
  preserveMetadata :: bool

text \<open>The code never looks into the bytes of a file; a byte is a number here.\<close>

type_synonym byte = nat

record Blob =
  blob_type :: jsstring
  blob_bytes :: "byte list"

record File =
  file_name :: jsstring
  file_type :: jsstring
  lastModified :: nat
  file_bytes :: "byte list"

definition file_size :: "File \<Rightarrow> nat" where
  "file_size f = length (file_bytes f)"

definition blob_of_file :: "File \<Rightarrow> Blob" where
  "blob_of_file f = \<lparr>blob_type = file_type f, blob_bytes = file_bytes f\<rparr>"

record ImageFile =
  image_id :: jsstring
  image_file :: File
  preview :: jsstring
  status :: ProcessingStatus
  progress :: real
  originalSize :: nat
  optimizedSize :: "nat option"
  optimizedUrl :: "jsstring option"
  optimizedName :: "jsstring option"
  error :: "jsstring option"
  aiSuggestedName :: "jsstring option"

section \<open>The browser and the external services\<close>

text \<open>
  What the code calls and this repository does not define is a parameter of the model: a
  result \<open>None\<close> is a rejected promise, a thrown exception or a \<open>null\<close> result, as the field
  says.
\<close>

record CompressionOptions =
  maxSizeMB :: real
  maxWidthOrHeight :: jsnumber
  useWebWorker :: bool
  fileType :: jsstring

record Payload =
  mimeType :: jsstring
  payload_data :: jsstring

text \<open>
  The value of the property \<open>name\<close> of a parsed response body: absent or falsy, a non-empty
  string, or a truthy value that is no string and so has no method \<open>trim\<close>.
\<close>

datatype name_field = NameFalsy | NameString jsstring | NameOther

datatype json_body = Unparseable | JsonNull | JsonValue name_field

datatype fetch_result = Rejected | Response nat json_body

record env =
  createImageBitmap :: "File \<Rightarrow> (nat \<times> nat) option"
  getContext2d :: "nat \<Rightarrow> nat \<Rightarrow> bool"
  toBlob :: "File \<Rightarrow> nat \<Rightarrow> nat \<Rightarrow> jsstring \<Rightarrow> real option \<Rightarrow> Blob option"
  readAsDataURL :: "File \<Rightarrow> jsstring option"
  imageCompression :: "File \<Rightarrow> CompressionOptions \<Rightarrow> real list \<times> File option"
  suggest_name_api :: "Payload \<Rightarrow> fetch_result"
  zip_generate :: "(jsstring \<times> Blob) list \<Rightarrow> Blob"
  object_url :: "nat \<Rightarrow> jsstring"
  random_id :: "nat \<Rightarrow> jsstring"
  date_now :: nat

section \<open>The state of the application\<close>

text \<open>
  The state of the component \<open>App\<close> and of the page around it: the registry \<open>images\<close> and the
  two flags, the object URLs that are live with the blobs they stand for, the number of URLs
  and of identifiers handed out so far, every call of \<open>URL.revokeObjectURL\<close> in order, and a
  record of the steps of \<open>processImage\<close> in the order in which they reached the registry.
\<close>

datatype step = Started | Progressed real | Finished | Failed

record world =
  images :: "ImageFile list"
  isProcessing :: bool
  isRenaming :: "jsstring option"
  object_urls :: "jsstring \<rightharpoonup> Blob"
  url_count :: nat
  id_count :: nat
  revoked :: "jsstring list"
  history :: "(jsstring \<times> step) list"

definition initial_world :: world where
  "initial_world =
     \<lparr>images = [], isProcessing = False, isRenaming = None, object_urls = Map.empty,
      url_count = 0, id_count = 0, revoked = [], history = []\<rparr>"

definition createObjectURL :: "env \<Rightarrow> Blob \<Rightarrow> world \<Rightarrow> jsstring \<times> world" where
  "createObjectURL e b w =
     (let url = object_url e (url_count w)
      in (url, w\<lparr>object_urls := (object_urls w)(url \<mapsto> b), url_count := Suc (url_count w)\<rparr>))"

definition revokeObjectURL :: "jsstring \<Rightarrow> world \<Rightarrow> world" where
  "revokeObjectURL url w =
     w\<lparr>object_urls := (object_urls w)(url := None), revoked := revoked w @ [url]\<rparr>"

text \<open>
  The loop over a list of records that \<open>clearWorkspace\<close> and the cleanup of the effect both
  run: the preview and the result URL of every record are revoked when they are truthy.
\<close>

definition revoke_record :: "ImageFile \<Rightarrow> world \<Rightarrow> world" where
  "revoke_record img w =
     (let w1 = (if preview img \<noteq> [] then revokeObjectURL (preview img) w else w)
      in (case optimizedUrl img of
            None \<Rightarrow> w1
          | Some u \<Rightarrow> if u \<noteq> [] then revokeObjectURL u w1 else w1))"

definition revoke_all :: "ImageFile list \<Rightarrow> world \<Rightarrow> world" where
  "revoke_all imgs w = fold revoke_record imgs w"

text \<open>
  \<open>setImages\<close> with a new array. The effect of lines 200 to 207 depends on \<open>images\<close> and returns
  a cleanup that closes over the array of its render; React runs that cleanup when the array
  is replaced. Every update of the code builds a new array (\<open>map\<close>, \<open>filter\<close>, a spread or a
  literal), and the model commits each update on its own.
\<close>

definition setImages :: "ImageFile list \<Rightarrow> world \<Rightarrow> world" where
  "setImages new w = (revoke_all (images w) w)\<lparr>images := new\<rparr>"

text \<open>The idiom \<open>prev.map(img => img.id === id ? f(img) : img)\<close>.\<close>

definition update_record :: "jsstring \<Rightarrow> (ImageFile \<Rightarrow> ImageFile) \<Rightarrow> ImageFile list \<Rightarrow> ImageFile list" where
  "update_record i f imgs = map (\<lambda>img. if image_id img = i then f img else img) imgs"

definition record_step :: "jsstring \<Rightarrow> step \<Rightarrow> world \<Rightarrow> world" where
  "record_step i s w = w\<lparr>history := history w @ [(i, s)]\<rparr>"

section \<open>Adding and removing records\<close>

fun new_images :: "env \<Rightarrow> File list \<Rightarrow> world \<Rightarrow> ImageFile list \<times> world" where
  "new_images e [] w = ([], w)"
| "new_images e (f # fs) w =
     (let ident = random_id e (id_count w);
          (url, w1) = createObjectURL e (blob_of_file f) (w\<lparr>id_count := Suc (id_count w)\<rparr>);
          img = \<lparr>image_id = ident, image_file = f, preview = url, status = Pending, progress = 0,
                 originalSize = file_size f, optimizedSize = None, optimizedUrl = None,
                 optimizedName = None, error = None, aiSuggestedName = None\<rparr>;
          (imgs, w2) = new_images e fs w1
      in (img # imgs, w2))"

definition addFiles :: "env \<Rightarrow> File list \<Rightarrow> world \<Rightarrow> world" where
  "addFiles e files w =
     (let (newImages, w1) = new_images e files w in setImages (images w1 @ newImages) w1)"

definition removeImage :: "jsstring \<Rightarrow> world \<Rightarrow> world" where
  "removeImage i w =
     (let prev = images w;
          w1 = (case find (\<lambda>img. image_id img = i) prev of
                  None \<Rightarrow> w
                | Some target \<Rightarrow> revoke_record target w)
      in setImages (filter (\<lambda>img. image_id img \<noteq> i) prev) w1)"

definition clearWorkspace :: "world \<Rightarrow> world" where
  "clearWorkspace w =
     (let w1 = w\<lparr>isRenaming := None\<rparr>;
          w2 = revoke_all (images w1) w1
      in setImages [] w2)"

section \<open>Resizing (\<open>resizeImageToFit\<close>)\<close>

text \<open>\<open>Math.round\<close> rounds a half upwards.\<close>

definition js_round :: "real \<Rightarrow> int" where
  "js_round x = \<lfloor>x + 1 / 2\<rfloor>"

fun js_max :: "jsnumber \<Rightarrow> jsnumber \<Rightarrow> jsnumber" where
  "js_max NaN y = NaN"
| "js_max x NaN = NaN"
| "js_max PosInfinity y = PosInfinity"
| "js_max x PosInfinity = PosInfinity"
| "js_max NegInfinity y = y"
| "js_max x NegInfinity = x"
| "js_max (Num a) (Num b) = Num (max a b)"

definition starts_with :: "jsstring \<Rightarrow> jsstring \<Rightarrow> bool" where
  "starts_with p s = (take (length p) s = p)"

text \<open>
  \<open>Math.min(maxWidth / width, maxHeight / height, 1)\<close> for positive bounds: each quotient is
  rounded to a double. A quotient by a dimension 0 is \<open>Infinity\<close> in JavaScript and leaves the
  minimum to the other arguments.
\<close>

definition scale_factor :: "real \<Rightarrow> real \<Rightarrow> nat \<Rightarrow> nat \<Rightarrow> real" where
  "scale_factor bw bh width height =
     (let m1 = (if height = 0 then 1 else min (fl (bh / real height)) 1)
      in if width = 0 then m1 else min (fl (bw / real width)) m1)"

text \<open>
  \<open>Math.max(1, Math.round(n * scale))\<close>: the product is rounded to a double, and that double
  to an integer.
\<close>

definition target_size :: "nat \<Rightarrow> real \<Rightarrow> nat" where
  "target_size n scale = nat (max 1 (js_round (fl (real n * scale))))"

definition resizeImageToFit :: "env \<Rightarrow> File \<Rightarrow> jsnumber \<Rightarrow> jsnumber \<Rightarrow> File" where
  "resizeImageToFit e f mw mh =
     (case (mw, mh) of
        (Num bw, Num bh) \<Rightarrow>
          if bw \<le> 0 \<or> bh \<le> 0 then f
          else if \<not> starts_with (js ''image/'') (file_type f) then f
          else (case createImageBitmap e f of
                  None \<Rightarrow> f
                | Some (width, height) \<Rightarrow>
                    (let scale = scale_factor bw bh width height
                     in if scale \<ge> 1 then f
                        else (let targetWidth = target_size width scale;
                                  targetHeight = target_size height scale
                              in if \<not> getContext2d e targetWidth targetHeight then f
                                 else (case toBlob e f targetWidth targetHeight (file_type f) None of
                                         None \<Rightarrow> f
                                       | Some blob \<Rightarrow>
                                           \<lparr>file_name = file_name f,
                                            file_type = (if blob_type blob \<noteq> [] then blob_type blob
                                                         else file_type f),
                                            lastModified = lastModified f,
                                            file_bytes = blob_bytes blob\<rparr>))))
      | _ \<Rightarrow> f)"

section \<open>The thumbnail for the naming service\<close>

datatype failure = ReaderFailed | FetchFailed

definition fileToDataUrl :: "env \<Rightarrow> File \<Rightarrow> failure + jsstring" where
  "fileToDataUrl e f = (case readAsDataURL e f of None \<Rightarrow> Inl ReaderFailed | Some url \<Rightarrow> Inr url)"

text \<open>\<open>dataUrl.split(',')[1] || ''\<close>\<close>

definition base64_part :: "jsstring \<Rightarrow> jsstring" where
  "base64_part dataUrl = (case split_on comma dataUrl of a # b # rest \<Rightarrow> b | _ \<Rightarrow> [])"

text \<open>The body of the \<open>try\<close> block of \<open>createAiThumbnailPayload\<close>: \<open>None\<close> when it throws.\<close>

definition encode_thumbnail :: "env \<Rightarrow> File \<Rightarrow> Payload option" where
  "encode_thumbnail e resized =
     (case createImageBitmap e resized of
        None \<Rightarrow> None
      | Some (width, height) \<Rightarrow>
          if \<not> getContext2d e width height then None
          else (case toBlob e resized width height (js ''image/jpeg'') (Some 0.75) of
                  None \<Rightarrow> None
                | Some blob \<Rightarrow>
                    (let thumbFile =
                           \<lparr>file_name = js ''thumb.jpg'',
                            file_type = (if blob_type blob \<noteq> [] then blob_type blob
                                         else js ''image/jpeg''),
                            lastModified = date_now e,
                            file_bytes = blob_bytes blob\<rparr>
                     in (case fileToDataUrl e thumbFile of
                           Inl err \<Rightarrow> None
                         | Inr dataUrl \<Rightarrow>
                             Some \<lparr>mimeType = file_type thumbFile,
                                   payload_data = base64_part dataUrl\<rparr>))))"

definition createAiThumbnailPayload :: "env \<Rightarrow> File \<Rightarrow> failure + Payload" where
  "createAiThumbnailPayload e f =
     (let resized = resizeImageToFit e f (Num 512) (Num 512)
      in (case encode_thumbnail e resized of
            Some payload \<Rightarrow> Inr payload
          | None \<Rightarrow>
              (case fileToDataUrl e resized of
                 Inl err \<Rightarrow> Inl err
               | Inr dataUrl \<Rightarrow>
                   Inr \<lparr>mimeType = file_type resized, payload_data = base64_part dataUrl\<rparr>)))"

section \<open>The naming flow (\<open>suggestName\<close>)\<close>

text \<open>\<open>Response.ok\<close>: the status is in the range 200 to 299.\<close>

definition response_ok :: "nat \<Rightarrow> bool" where
  "response_ok code \<longleftrightarrow> 200 \<le> code \<and> code \<le> 299"

text \<open>
  The name that the \<open>try\<close> block of \<open>suggestName\<close> reaches \<open>setImages\<close> with: \<open>None\<close> when the
  block throws before, and the \<open>catch\<close> only logs.
\<close>

definition suggested_name :: "env \<Rightarrow> ImageFile \<Rightarrow> jsstring option" where
  "suggested_name e image0 =
     (case createAiThumbnailPayload e (image_file image0) of
        Inl err \<Rightarrow> None
      | Inr payload \<Rightarrow>
          (case suggest_name_api e payload of
             Rejected \<Rightarrow> None
           | Response code body \<Rightarrow>
               if \<not> response_ok code then None
               else (case body of
                       Unparseable \<Rightarrow> None
                     | JsonNull \<Rightarrow> None
                     | JsonValue NameOther \<Rightarrow> None
                     | JsonValue NameFalsy \<Rightarrow> Some (trim (js ''optimized-image''))
                     | JsonValue (NameString n) \<Rightarrow>
                         Some (trim (if n \<noteq> [] then n else js ''optimized-image'')))))"

text \<open>\<open>img.optimizedName?.split('.').pop() || settings.targetFormat\<close>\<close>

definition name_extension :: "ProcessingSettings \<Rightarrow> ImageFile \<Rightarrow> jsstring" where
  "name_extension s img =
     (case optimizedName img of
        None \<Rightarrow> format_string (targetFormat s)
      | Some n \<Rightarrow>
          (let ext = last (split_on dot n)
           in if ext \<noteq> [] then ext else format_string (targetFormat s)))"

definition suggestName :: "env \<Rightarrow> ProcessingSettings \<Rightarrow> ImageFile \<Rightarrow> world \<Rightarrow> world" where
  "suggestName e s image0 w =
     (let w1 = w\<lparr>isRenaming := Some (image_id image0)\<rparr>;
          w2 = (case suggested_name e image0 of
                  None \<Rightarrow> w1
                | Some newName \<Rightarrow>
                    setImages
                      (update_record (image_id image0)
                         (\<lambda>img. img\<lparr>optimizedName := Some (newName @ [dot] @ name_extension s img)\<rparr>)
                         (images w1))
                      w1)
      in w2\<lparr>isRenaming := None\<rparr>)"

section \<open>Processing one image and the whole batch\<close>

definition compression_options :: "ProcessingSettings \<Rightarrow> ImageFile \<Rightarrow> CompressionOptions" where
  "compression_options s image0 =
     \<lparr>maxSizeMB = fl (fl (fl (real (originalSize image0) / 1024) / 1024) * quality s),
      maxWidthOrHeight = js_max (maxWidth s) (maxHeight s),
      useWebWorker = True,
      fileType = (if targetFormat s = Original then file_type (image_file image0)
                  else js ''image/'' @ format_string (targetFormat s))\<rparr>"

text \<open>
  The value that the callback \<open>onProgress\<close> stores for a report \<open>p\<close> of the engine,
  \<open>10 + (p * 0.85)\<close>: the literal is the double nearest to 0.85, and the product and the sum
  are rounded in turn.
\<close>

definition progress_value :: "real \<Rightarrow> real" where
  "progress_value p = fl (10 + fl (p * fl (85 / 100)))"

definition onProgress :: "jsstring \<Rightarrow> real \<Rightarrow> world \<Rightarrow> world" where
  "onProgress i p w =
     setImages (update_record i (\<lambda>img. img\<lparr>progress := progress_value p\<rparr>) (images w))
       (record_step i (Progressed p) w)"

text \<open>The three other updates of \<open>processImage\<close>, as functions of the record they rewrite.\<close>

definition mark_processing :: "ImageFile \<Rightarrow> ImageFile" where
  "mark_processing img = img\<lparr>status := Processing, progress := 5\<rparr>"

definition mark_completed :: "nat \<Rightarrow> jsstring \<Rightarrow> jsstring \<Rightarrow> ImageFile \<Rightarrow> ImageFile" where
  "mark_completed bytes url fileName img =
     img\<lparr>status := Completed, progress := 100, optimizedSize := Some bytes,
         optimizedUrl := Some url,
         optimizedName := (if truthy (optimizedName img) then optimizedName img
                           else Some fileName)\<rparr>"

definition mark_error :: "ImageFile \<Rightarrow> ImageFile" where
  "mark_error img = img\<lparr>status := Error, error := Some (js ''Process failed'')\<rparr>"

definition default_file_name :: "ProcessingSettings \<Rightarrow> ImageFile \<Rightarrow> jsstring" where
  "default_file_name s image0 =
     (let name = file_name (image_file image0);
          extension = (if targetFormat s = Original then last (split_on dot name)
                       else format_string (targetFormat s))
      in strip_dot_suffix (\<lambda>c. c \<noteq> slash \<and> c \<noteq> dot) name @ js ''_opti.'' @ extension)"

text \<open>
  What the engine does for one image: the reports it passes to \<open>onProgress\<close>, then the
  compressed file, or \<open>None\<close> when the promise is rejected.
\<close>

definition engine_run :: "env \<Rightarrow> ProcessingSettings \<Rightarrow> ImageFile \<Rightarrow> real list \<times> File option" where
  "engine_run e s image0 =
     imageCompression e
       (resizeImageToFit e (image_file image0) (maxWidth s) (maxHeight s))
       (compression_options s image0)"

definition start_processing :: "jsstring \<Rightarrow> world \<Rightarrow> world" where
  "start_processing i w =
     setImages (update_record i mark_processing (images w)) (record_step i Started w)"

definition finish_completed :: "jsstring \<Rightarrow> nat \<Rightarrow> jsstring \<Rightarrow> jsstring \<Rightarrow> world \<Rightarrow> world" where
  "finish_completed i bytes url fileName w =
     setImages (update_record i (mark_completed bytes url fileName) (images w))
       (record_step i Finished w)"

definition finish_error :: "jsstring \<Rightarrow> world \<Rightarrow> world" where
  "finish_error i w =
     setImages (update_record i mark_error (images w)) (record_step i Failed w)"

text \<open>
  \<open>processImage\<close>: everything is inside the \<open>try\<close>, and the only step that can throw is the
  engine; the \<open>catch\<close> then marks the record.
\<close>

definition processImage :: "env \<Rightarrow> ProcessingSettings \<Rightarrow> ImageFile \<Rightarrow> world \<Rightarrow> world" where
  "processImage e s image0 w =
     (let i = image_id image0;
          w1 = start_processing i w;
          (reports, result) = engine_run e s image0;
          w2 = fold (onProgress i) reports w1
      in (case result of
            Some compressedFile \<Rightarrow>
              (let (optimizedUrl, w3) = createObjectURL e (blob_of_file compressedFile) w2;
                   fileName = default_file_name s image0
               in finish_completed i (file_size compressedFile) optimizedUrl fileName w3)
          | None \<Rightarrow> finish_error i w2))"

definition processAll :: "env \<Rightarrow> ProcessingSettings \<Rightarrow> world \<Rightarrow> world" where
  "processAll e s w =
     (let w1 = w\<lparr>isProcessing := True\<rparr>;
          pending = filter (\<lambda>i. status i \<noteq> Completed) (images w);
          w2 = fold (processImage e s) pending w1
      in w2\<lparr>isProcessing := False\<rparr>)"

section \<open>The archive (\<open>downloadZip\<close>)\<close>

text \<open>
  The archive under construction is the sequence of the calls of \<open>zip.file\<close>. The loop fetches
  the result URL of each record in turn; a URL that is no longer live rejects the fetch, and
  nothing catches that.
\<close>

definition entry_name :: "ImageFile \<Rightarrow> jsstring" where
  "entry_name img = (if truthy (optimizedName img) then the (optimizedName img) else js ''image.webp'')"

fun add_entries :: "world \<Rightarrow> ImageFile list \<Rightarrow> (jsstring \<times> Blob) list \<Rightarrow> failure + (jsstring \<times> Blob) list" where
  "add_entries w [] archive = Inr archive"
| "add_entries w (img # rest) archive =
     (case optimizedUrl img of
        None \<Rightarrow> Inl FetchFailed
      | Some url \<Rightarrow>
          (case object_urls w url of
             None \<Rightarrow> Inl FetchFailed
           | Some blob \<Rightarrow> add_entries w rest (archive @ [(entry_name img, blob)])))"

record Download =
  download_stamp :: nat
  download_content :: Blob
  download_entries :: "(jsstring \<times> Blob) list"

definition downloadZip :: "env \<Rightarrow> world \<Rightarrow> failure + (Download option \<times> world)" where
  "downloadZip e w =
     (let completedImages =
            filter (\<lambda>img. status img = Completed \<and> truthy (optimizedUrl img)) (images w)
      in if completedImages = [] then Inr (None, w)
         else (case add_entries w completedImages [] of
                 Inl err \<Rightarrow> Inl err
               | Inr archive \<Rightarrow>
                   (let content = zip_generate e archive;
                        (zipUrl, w1) = createObjectURL e content w;
                        w2 = revokeObjectURL zipUrl w1
                    in Inr (Some \<lparr>download_stamp = date_now e, download_content = content,
                                  download_entries = archive\<rparr>, w2))))"

section \<open>Notions of the statements\<close>

text \<open>
  \<open>others_unchanged i before after\<close>: the two registries have the same length, and every
  record whose identifier is not \<open>i\<close> is the same record at the same position.
\<close>

definition others_unchanged :: "jsstring \<Rightarrow> ImageFile list \<Rightarrow> ImageFile list \<Rightarrow> bool" where
  "others_unchanged i before after =
     list_all2 (\<lambda>a b. image_id a \<noteq> i \<longrightarrow> b = a) before after"

text \<open>
  \<open>restarted h i\<close>: in the steps \<open>h\<close> recorded so far, the record \<open>i\<close> was started again after
  its first failure.
\<close>

definition restarted :: "(jsstring \<times> step) list \<Rightarrow> jsstring \<Rightarrow> bool" where
  "restarted h i \<longleftrightarrow> (i, Started) \<in> set (dropWhile (\<lambda>x. x \<noteq> (i, Failed)) h)"

text \<open>
  What the code keeps true of a record, given the steps recorded so far: the result
  (\<open>optimizedUrl\<close>, \<open>optimizedSize\<close>) is present exactly when the status is \<open>completed\<close>; a
  record in the state \<open>error\<close> carries its error and a pending record carries none; an error is
  present only when a failure of the record is recorded, and outside the state \<open>error\<close> only
  when the record was started again after a failure. \<open>batch_ok\<close> says this of every record of
  the batch.
\<close>

definition record_ok :: "(jsstring \<times> step) list \<Rightarrow> ImageFile \<Rightarrow> bool" where
  "record_ok h r \<longleftrightarrow>
     (optimizedUrl r \<noteq> None \<longleftrightarrow> status r = Completed) \<and>
     (optimizedSize r \<noteq> None \<longleftrightarrow> status r = Completed) \<and>
     (status r = Error \<longrightarrow> error r \<noteq> None) \<and>
     (status r = Pending \<longrightarrow> error r = None) \<and>
     (error r \<noteq> None \<longrightarrow> (image_id r, Failed) \<in> set h) \<and>
     (error r \<noteq> None \<longrightarrow> status r = Error \<or> restarted h (image_id r))"

definition batch_ok :: "world \<Rightarrow> bool" where
  "batch_ok w \<longleftrightarrow> list_all (record_ok (history w)) (images w)"

text \<open>
  The invariant as the claim states it: the result is present exactly when the status is
  \<open>completed\<close>, the error exactly when the status is \<open>error\<close>, and never a result and an error
  together.
\<close>

definition claimed_invariant :: "ImageFile \<Rightarrow> bool" where
  "claimed_invariant r \<longleftrightarrow>
     (optimizedUrl r \<noteq> None \<longleftrightarrow> status r = Completed) \<and>
     (optimizedSize r \<noteq> None \<longleftrightarrow> status r = Completed) \<and>
     (error r \<noteq> None \<longleftrightarrow> status r = Error) \<and>
     \<not> (optimizedUrl r \<noteq> None \<and> error r \<noteq> None) \<and>
     \<not> (optimizedSize r \<noteq> None \<and> error r \<noteq> None)"

text \<open>
  The record that \<open>processImage\<close> leaves for a record \<open>r\<close> of the registry, when it runs for
  the snapshot \<open>p\<close> and the result URL is \<open>url\<close>: the composition of its updates.
\<close>

definition store_progress :: "real list \<Rightarrow> ImageFile \<Rightarrow> ImageFile" where
  "store_progress reports r = fold (\<lambda>q r. r\<lparr>progress := progress_value q\<rparr>) reports r"

definition outcome_update :: "env \<Rightarrow> ProcessingSettings \<Rightarrow> ImageFile \<Rightarrow> jsstring \<Rightarrow> ImageFile \<Rightarrow> ImageFile" where
  "outcome_update e s p url r =
     (let r1 = store_progress (fst (engine_run e s p)) (mark_processing r)
      in (case snd (engine_run e s p) of
            Some compressedFile \<Rightarrow>
              mark_completed (file_size compressedFile) url (default_file_name s p) r1
          | None \<Rightarrow> mark_error r1))"

text \<open>
  The steps that \<open>processImage\<close> records for \<open>p\<close>, and the status it ends in.
\<close>

definition image_trace :: "env \<Rightarrow> ProcessingSettings \<Rightarrow> ImageFile \<Rightarrow> (jsstring \<times> step) list" where
  "image_trace e s p =
     (image_id p, Started) # map (\<lambda>q. (image_id p, Progressed q)) (fst (engine_run e s p)) @
     [(image_id p, if snd (engine_run e s p) = None then Failed else Finished)]"

definition final_status :: "env \<Rightarrow> ProcessingSettings \<Rightarrow> ImageFile \<Rightarrow> ProcessingStatus" where
  "final_status e s p = (if snd (engine_run e s p) = None then Error else Completed)"

text \<open>
  \<open>processed_as\<close> relates a record before and after a run over the snapshots \<open>ps\<close>;
  \<open>batch_result\<close> relates a record before and after \<open>processAll\<close>.
\<close>

definition processed_as :: "env \<Rightarrow> ProcessingSettings \<Rightarrow> ImageFile list \<Rightarrow> ImageFile \<Rightarrow> ImageFile \<Rightarrow> bool" where
  "processed_as e s ps r r' =
     (case find (\<lambda>p. image_id p = image_id r) ps of
        None \<Rightarrow> r' = r
      | Some p \<Rightarrow> image_id r' = image_id r \<and> status r' = final_status e s p)"

definition batch_result :: "env \<Rightarrow> ProcessingSettings \<Rightarrow> ImageFile \<Rightarrow> ImageFile \<Rightarrow> bool" where
  "batch_result e s r r' =
     (image_id r' = image_id r \<and>
      (if status r = Completed then r' = r else status r' = final_status e s r))"

text \<open>
  The numbers that \<open>Number.isFinite\<close> accepts.
\<close>

fun is_finite :: "jsnumber \<Rightarrow> bool" where
  "is_finite (Num r) = True"
| "is_finite v = False"

text \<open>
  \<open>only_renamed a b\<close>: the records agree on every field but \<open>optimizedName\<close>.
\<close>

definition only_renamed :: "ImageFile \<Rightarrow> ImageFile \<Rightarrow> bool" where
  "only_renamed a b = (b = a\<lparr>optimizedName := optimizedName b\<rparr>)"

text \<open>
  The records that \<open>downloadZip\<close> selects, whether the result URL of a record is still live,
  and the entry that the archive gets for a record whose URL is live.
\<close>

definition selected_for_archive :: "world \<Rightarrow> ImageFile list" where
  "selected_for_archive w =
     filter (\<lambda>img. status img = Completed \<and> truthy (optimizedUrl img)) (images w)"

definition handle_live :: "world \<Rightarrow> ImageFile \<Rightarrow> bool" where
  "handle_live w img =
     (case optimizedUrl img of None \<Rightarrow> False | Some url \<Rightarrow> object_urls w url \<noteq> None)"

definition archive_entry :: "world \<Rightarrow> ImageFile \<Rightarrow> jsstring \<times> Blob" where
  "archive_entry w img =
     ((case optimizedName img of
         None \<Rightarrow> js ''image.webp''
       | Some n \<Rightarrow> if n = [] then js ''image.webp'' else n),
      the (object_urls w (the (optimizedUrl img))))"

section \<open>Sample inputs\<close>

text \<open>
  Three files, and a browser in which the canvas encodes what it is asked for except GIF, which
  comes out as PNG, and the engine cannot write AVIF or GIF. The encoded bytes of the sample
  canvas are its two dimensions; a file of two bytes decodes to these dimensions, every other
  file that is not empty to 1600 by 1200.
\<close>

definition sample_png :: File where
  "sample_png =
     \<lparr>file_name = js ''Beach.PNG'', file_type = js ''image/png'', lastModified = 1,
      file_bytes = [1, 2, 3, 4]\<rparr>"

definition sample_gif :: File where
  "sample_gif =
     \<lparr>file_name = js ''anim.gif'', file_type = js ''image/gif'', lastModified = 2,
      file_bytes = [5, 6, 7]\<rparr>"

definition sample_strip :: File where
  "sample_strip =
     \<lparr>file_name = js ''strip.png'', file_type = js ''image/png'', lastModified = 3,
      file_bytes = [11, 2112]\<rparr>"

definition sample_env :: env where
  "sample_env =
     \<lparr>createImageBitmap = (\<lambda>f.
        case file_bytes f of
          [] \<Rightarrow> None
        | [width, height] \<Rightarrow> Some (width, height)
        | _ \<Rightarrow> Some (1600, 1200)),
      getContext2d = (\<lambda>width height. True),
      toBlob = (\<lambda>f width height t q.
        Some \<lparr>blob_type = (if t = js ''image/gif'' then js ''image/png'' else t),
              blob_bytes = [width, height]\<rparr>),
      readAsDataURL = (\<lambda>f. Some (js ''data:'' @ file_type f @ js '';base64,'' @ file_bytes f)),
      imageCompression = (\<lambda>f opts.
        if fileType opts = js ''image/avif'' \<or> fileType opts = js ''image/gif'' then ([50], None)
        else ([0, 50, 100],
              Some \<lparr>file_name = file_name f, file_type = fileType opts, lastModified = 0,
                    file_bytes = take 1 (file_bytes f)\<rparr>)),
      suggest_name_api = (\<lambda>p. Response 500 Unparseable),
      zip_generate = (\<lambda>entries.
        \<lparr>blob_type = js ''application/zip'', blob_bytes = concat (map (\<lambda>x. blob_bytes (snd x)) entries)\<rparr>),
      object_url = (\<lambda>n. js ''blob:'' @ [48 + n]),
      random_id = (\<lambda>n. js ''id'' @ [48 + n]),
      date_now = 0\<rparr>"


definition accepting_env :: env where
  "accepting_env =
     sample_env\<lparr>suggest_name_api :=
       (\<lambda>p. Response 201 (JsonValue (NameString (js ''sunset''))))\<rparr>"

definition sample_settings :: "TargetFormat \<Rightarrow> ProcessingSettings" where
  "sample_settings fmt =
     \<lparr>targetFormat = fmt, quality = fl (8 / 10), maxWidth = Num 2560, maxHeight = Num 1440,
      preserveMetadata = False\<rparr>"

definition sample_payload :: Payload where
  "sample_payload = \<lparr>mimeType = js ''image/jpeg'', payload_data = [512, 384]\<rparr>"

definition pending_record :: "jsstring \<Rightarrow> File \<Rightarrow> jsstring \<Rightarrow> ImageFile" where
  "pending_record ident f url =
     \<lparr>image_id = ident, image_file = f, preview = url, status = Pending, progress = 0,
      originalSize = file_size f, optimizedSize = None, optimizedUrl = None,
      optimizedName = None, error = None, aiSuggestedName = None\<rparr>"

text \<open>
  Batches: two files added; one file added; that batch after a run that fails (AVIF), and
  after a second run that succeeds (WebP); a GIF and a PNG added; one file added and
  processed; a result that arrives after its record was removed, and the workspace then
  cleared; two files added and processed.
\<close>

definition sample_world :: world where
  "sample_world = addFiles sample_env [sample_png, sample_gif] initial_world"

definition one_image_world :: world where
  "one_image_world = addFiles sample_env [sample_png] initial_world"

definition failed_world :: world where
  "failed_world = processAll sample_env (sample_settings Avif) one_image_world"

definition retried_world :: world where
  "retried_world = processAll sample_env (sample_settings Webp) failed_world"

definition mixed_world :: world where
  "mixed_world = addFiles sample_env [sample_gif, sample_png] initial_world"

definition done_world :: world where
  "done_world = processAll sample_env (sample_settings Webp) one_image_world"

definition orphan_world :: world where
  "orphan_world =
     clearWorkspace
       (processImage sample_env (sample_settings Webp)
          (pending_record (js ''id0'') sample_png (js ''blob:0''))
          (removeImage (js ''id0'') one_image_world))"

definition two_done_world :: world where
  "two_done_world =
     processAll sample_env (sample_settings Webp)
       (addFiles sample_env [sample_png, sample_png] initial_world)"

section \<open>Properties of the slug\<close>

lemmas slug_defs = toSafeSlug_def slug_base_def strip_edge_hyphens_def replace_unsafe_def
  toLowerCase_def lower_unit_def is_slug_unit_def is_ext_unit_def trim_def is_space_def
  is_digit_def is_lower_def is_upper_def hyphen_def dot_def js_def

lemma dropWhile_head_fails: "dropWhile P xs = y # ys \<Longrightarrow> \<not> P y"
  by (metis dropWhile_eq_Cons_conv)

lemma collapse_head:
  "replace_runs (\<lambda>c. c = hyphen) [hyphen] (dropWhile (\<lambda>c. c = hyphen) cs) = y # ys \<Longrightarrow> y \<noteq> hyphen"
  by (cases "dropWhile (\<lambda>c. c = hyphen) cs") (auto dest: dropWhile_head_fails split: if_splits)

lemma no_double_collapse: "no_double (replace_runs (\<lambda>c. c = hyphen) [hyphen] s)"
proof (induction "\<lambda>c. c = hyphen" "[hyphen]" s rule: replace_runs.induct)
  case 1
  then show ?case by simp
next
  case (2 c cs)
  show ?case
  proof (cases "c = hyphen")
    case True
    let ?r = "replace_runs (\<lambda>c. c = hyphen) [hyphen] (dropWhile (\<lambda>c. c = hyphen) cs)"
    from 2 True have nd: "no_double ?r" by simp
    show ?thesis
    proof (cases ?r)
      case Nil
      with True show ?thesis by simp
    next
      case (Cons y ys)
      then have "y \<noteq> hyphen" by (rule collapse_head)
      with True Cons nd show ?thesis by simp
    qed
  next
    case False
    with 2 have nd: "no_double (replace_runs (\<lambda>c. c = hyphen) [hyphen] cs)" by simp
    with False show ?thesis
      by (cases "replace_runs (\<lambda>c. c = hyphen) [hyphen] cs") simp_all
  qed
qed

lemma no_double_tl: "no_double (a # s) \<Longrightarrow> no_double s"
  by (cases s) simp_all

lemma no_double_dropWhile:
  "no_double s \<Longrightarrow>
   dropWhile (\<lambda>c. c = hyphen) s = (case s of [] \<Rightarrow> [] | c # cs \<Rightarrow> if c = hyphen then cs else s)"
  by (cases s rule: no_double.cases) auto

lemma no_double_last: "no_double (xs @ [hyphen]) \<Longrightarrow> xs \<noteq> [] \<Longrightarrow> last xs \<noteq> hyphen"
  by (induction xs rule: no_double.induct) auto

lemma no_double_strip_end:
  assumes "no_double s"
  shows "rev (dropWhile (\<lambda>c. c = hyphen) (rev s)) =
         (if s \<noteq> [] \<and> last s = hyphen then butlast s else s)"
proof (cases s rule: rev_cases)
  case Nil
  then show ?thesis by simp
next
  case (snoc xs x)
  show ?thesis
  proof (cases "x = hyphen")
    case False
    with snoc show ?thesis by simp
  next
    case True
    show ?thesis
    proof (cases "xs = []")
      case True
      with snoc \<open>x = hyphen\<close> show ?thesis by simp
    next
      case False
      with assms snoc True have "last xs \<noteq> hyphen" by (simp add: no_double_last)
      with False have "dropWhile (\<lambda>c. c = hyphen) (rev xs) = rev xs"
        by (cases xs rule: rev_cases) simp_all
      with snoc True show ?thesis by simp
    qed
  qed
qed

lemma no_double_strip_edge:
  assumes "no_double s"
  shows "strip_edge_hyphens s =
         rev (dropWhile (\<lambda>c. c = hyphen) (rev (dropWhile (\<lambda>c. c = hyphen) s)))"
proof -
  let ?s1 = "case s of [] \<Rightarrow> [] | c # cs \<Rightarrow> if c = hyphen then cs else s"
  have d: "dropWhile (\<lambda>c. c = hyphen) s = ?s1"
    using assms by (rule no_double_dropWhile)
  have "no_double ?s1"
    using assms by (cases s) (auto dest: no_double_tl)
  then have "rev (dropWhile (\<lambda>c. c = hyphen) (rev ?s1)) =
             (if ?s1 \<noteq> [] \<and> last ?s1 = hyphen then butlast ?s1 else ?s1)"
    by (rule no_double_strip_end)
  then show ?thesis
    unfolding strip_edge_hyphens_def d by (simp add: Let_def)
qed

lemma strip_leading_dropWhile: "strip_leading cls s = dropWhile (\<lambda>c. c \<in> set cls) s"
  by (induction s) simp_all

lemma strip_trailing_append:
  "strip_trailing cls (s @ [c]) = (if c \<in> set cls then strip_trailing cls s else s @ [c])"
  by (induction s) (simp_all add: Let_def)

lemma strip_trailing_dropWhile:
  "strip_trailing cls s = rev (dropWhile (\<lambda>c. c \<in> set cls) (rev s))"
  by (induction s rule: rev_induct) (simp_all add: strip_trailing_append)

lemma spec_whitespace_ranges:
  "spec_whitespace =
     [9..<14] @ [32, 160, 5760] @ [8192..<8203] @ [8232, 8233, 8239, 8287, 12288, 65279]"
  by (simp add: spec_whitespace_def upt_rec)

lemma set_spec_whitespace: "c \<in> set spec_whitespace \<longleftrightarrow> is_space c"
  unfolding spec_whitespace_ranges is_space_def by (simp only: set_append set_upt) auto

lemma spec_trim: "strip_trailing spec_whitespace (strip_leading spec_whitespace s) = trim s"
  by (simp add: strip_leading_dropWhile strip_trailing_dropWhile trim_def
      set_spec_whitespace [abs_def])

lemma spec_upper_range: "spec_upper = [65..<91]"
  by (simp add: spec_upper_def js_def upt_rec)

lemma spec_lower_range: "spec_lower = [97..<123]"
  by (simp add: spec_lower_def js_def upt_rec)

lemma spec_digits_range: "spec_digits = [48..<58]"
  by (simp add: spec_digits_def js_def upt_rec)

lemma set_spec_upper: "c \<in> set spec_upper \<longleftrightarrow> is_upper c"
  unfolding spec_upper_range is_upper_def by (simp only: set_upt atLeastLessThan_iff) arith

lemma set_spec_lower: "c \<in> set spec_lower \<longleftrightarrow> is_lower c"
  unfolding spec_lower_range is_lower_def by (simp only: set_upt atLeastLessThan_iff) arith

lemma set_spec_digits: "c \<in> set spec_digits \<longleftrightarrow> is_digit c"
  unfolding spec_digits_range is_digit_def by (simp only: set_upt atLeastLessThan_iff) arith

lemma set_spec_alnum:
  "set cs \<subseteq> set (spec_upper @ spec_lower @ spec_digits) \<longleftrightarrow> list_all is_ext_unit cs"
  by (auto simp: list_all_iff is_ext_unit_def set_spec_upper set_spec_lower set_spec_digits)

lemma strip_dot_suffix_no_dot: "dot \<notin> set s \<Longrightarrow> strip_dot_suffix P s = s"
  by (induction s) simp_all

lemma extension_start_bound: "extension_start cls s = Some n \<Longrightarrow> n < length s"
  by (induction s arbitrary: n) (auto split: option.splits if_splits)

lemma no_extension:
  "extension_start cls s = None \<Longrightarrow> (\<forall>c \<in> set cls. c \<noteq> 46) \<Longrightarrow>
   strip_dot_suffix (\<lambda>c. c \<in> set cls) s = s"
  by (induction s) (auto split: option.splits if_splits simp: dot_def list_all_iff)

lemma has_extension:
  "extension_start cls s = Some n \<Longrightarrow> (\<forall>c \<in> set cls. c \<noteq> 46) \<Longrightarrow>
   strip_dot_suffix (\<lambda>c. c \<in> set cls) s = take n s"
proof (induction s arbitrary: n)
  case Nil
  then show ?case by simp
next
  case (Cons c cs)
  show ?case
  proof (cases "extension_start cls cs")
    case None
    with Cons.prems show ?thesis
      by (auto split: if_splits simp: dot_def list_all_iff)
  next
    case (Some m)
    with Cons.prems have n: "n = Suc m" by simp
    from Some have m: "m < length cs" by (rule extension_start_bound)
    from Cons.IH [OF Some Cons.prems(2)]
    have ih: "strip_dot_suffix (\<lambda>c. c \<in> set cls) cs = take m cs" .
    have "\<not> list_all (\<lambda>c. c \<in> set cls) cs"
    proof
      assume "list_all (\<lambda>c. c \<in> set cls) cs"
      then have eq: "strip_dot_suffix (\<lambda>c. c \<in> set cls) cs = cs"
        using Cons.prems(2) by (intro strip_dot_suffix_no_dot) (auto simp: list_all_iff dot_def)
      have "take m cs = cs"
        by (rule trans [OF sym [OF ih] eq])
      then have "length (take m cs) = length cs"
        by (rule arg_cong)
      with m show False by simp
    qed
    then show ?thesis by (simp add: n ih)
  qed
qed

lemma spec_strip_extension: "strip_extension s = strip_dot_suffix is_ext_unit s"
proof -
  let ?cls = "spec_upper @ spec_lower @ spec_digits"
  have cls: "(\<lambda>c. c \<in> set ?cls) = is_ext_unit"
    by (auto simp: is_ext_unit_def set_spec_upper set_spec_lower set_spec_digits)
  have nodot: "\<forall>c \<in> set ?cls. c \<noteq> 46"
    by (auto simp: set_spec_upper set_spec_lower set_spec_digits is_upper_def is_lower_def
        is_digit_def)
  show ?thesis
  proof (cases "extension_start ?cls s")
    case None
    from no_extension [OF None nodot] show ?thesis
      by (simp only: cls strip_extension_def None option.case)
  next
    case (Some n)
    from has_extension [OF Some nodot] show ?thesis
      by (simp only: cls strip_extension_def Some option.case)
  qed
qed

lemma replace_runs_hit:
  "P a \<Longrightarrow> replace_runs P r (a # s) = r @ replace_runs P r (dropWhile P s)"
  by simp

lemma spec_collapse:
  "collapse_to_hyphen cls s = replace_runs (\<lambda>c. c \<in> set cls) [hyphen] s"
proof (induction cls s rule: collapse_to_hyphen.induct)
  case (1 cls a b cs)
  then show ?case by (auto simp: hyphen_def)
next
  case (2 cls a)
  then show ?case by (simp add: hyphen_def)
next
  case (3 cls)
  then show ?case by simp
qed

lemma spec_lowercase_unit: "lowercase_unit c = lower_unit c"
proof (cases "is_upper c")
  case True
  then have "c \<in> set spec_upper" by (simp add: set_spec_upper)
  then show ?thesis
    unfolding lowercase_unit_def lower_unit_def spec_upper_def spec_lower_def js_def is_upper_def
    by auto
next
  case False
  then have "c \<notin> set spec_upper" by (simp add: set_spec_upper)
  then have "map_of (zip spec_upper spec_lower) c = None"
    by (simp add: map_of_zip_is_None spec_upper_def spec_lower_def js_def)
  with False show ?thesis
    by (simp add: lowercase_unit_def lower_unit_def)
qed

lemma spec_safe: "c \<in> set (spec_lower @ spec_digits @ [45]) \<longleftrightarrow> is_slug_unit c"
  by (auto simp: is_slug_unit_def set_spec_lower set_spec_digits hyphen_def)

lemma spec_strip_hyphens:
  "strip_trailing [45] (strip_leading [45] s) =
     rev (dropWhile (\<lambda>c. c = hyphen) (rev (dropWhile (\<lambda>c. c = hyphen) s)))"
  by (simp add: strip_leading_dropWhile strip_trailing_dropWhile hyphen_def)

lemma slugify_spec_steps:
  "slugify_spec t =
     (let stripped =
            rev (dropWhile (\<lambda>c. c = hyphen) (rev (dropWhile (\<lambda>c. c = hyphen)
              (replace_runs (\<lambda>c. c = hyphen) [hyphen]
                (replace_unsafe
                  (toLowerCase
                    (replace_runs is_space [hyphen]
                      (strip_dot_suffix is_ext_unit (trim t)))))))))
      in if stripped = [] then js ''optimized-image'' else stripped)"
proof -
  have ws: "(\<lambda>c. c \<in> set spec_whitespace) = is_space"
    by (simp add: set_spec_whitespace [abs_def])
  have hy: "(\<lambda>c. c \<in> set [45]) = (\<lambda>c. c = hyphen)"
    by (simp add: hyphen_def)
  have lo: "lowercase_unit = lower_unit"
    by (rule ext) (rule spec_lowercase_unit)
  have sf: "(\<lambda>c. if c \<in> set (spec_lower @ spec_digits @ [45]) then c else 45) =
            (\<lambda>c. if is_slug_unit c then c else hyphen)"
    by (rule ext) (simp only: spec_safe hyphen_def)
  show ?thesis
    unfolding slugify_spec_def
    by (simp only: spec_trim spec_strip_extension spec_collapse ws hy lo sf spec_strip_hyphens
        toLowerCase_def [symmetric] replace_unsafe_def [symmetric] Let_def)
qed

lemma toSafeSlug_refines_spec: "toSafeSlug t = slugify_spec t"
  unfolding toSafeSlug_def slug_base_def slugify_spec_steps Let_def
  by (simp only: no_double_strip_edge [OF no_double_collapse])

text \<open>
  Claim C6. \<open>toSafeSlug\<close> is a total function of its text alone, and it computes what the
  specification lists: trim, strip a trailing dot-extension, turn runs of white space into
  hyphens, lower the case, replace every unit outside \<open>[a-z0-9-]\<close> by a hyphen, collapse
  repeated hyphens, strip the hyphens at both ends, and put the fallback token
  \<open>optimized-image\<close> for an empty result: for every text it returns what \<open>slugify_spec\<close>
  returns, which is written from these words alone. The three examples of the specification
  come out as stated, and so do texts in which the white space at the ends, an extension
  behind another dot, hyphens at the ends and an empty stem matter.
\<close>

theorem toSafeSlug_correct:
  "toSafeSlug (js ''My Beach Photo.JPG'') = js ''my-beach-photo'' \<and>
   toSafeSlug (js ''   '') = js ''optimized-image'' \<and>
   toSafeSlug (js ''a///b'') = js ''a-b'' \<and>
   toSafeSlug (js ''  photo.jpg '') = js ''photo'' \<and>
   toSafeSlug (js ''a.tar.gz'') = js ''a-tar'' \<and>
   toSafeSlug (js ''--Caf_ 9  x--'') = js ''caf-9-x'' \<and>
   toSafeSlug (js ''.jpg'') = js ''optimized-image'' \<and>
   (\<forall>t. toSafeSlug t = slugify_spec t)"
proof -
  have "toSafeSlug (js ''My Beach Photo.JPG'') = js ''my-beach-photo''"
    by (simp add: slug_defs)
  moreover have "toSafeSlug (js ''   '') = js ''optimized-image''"
    by (simp add: slug_defs)
  moreover have "toSafeSlug (js ''a///b'') = js ''a-b''"
    by (simp add: slug_defs)
  moreover have "toSafeSlug (js ''  photo.jpg '') = js ''photo''"
    by (simp add: slug_defs)
  moreover have "toSafeSlug (js ''a.tar.gz'') = js ''a-tar''"
    by (simp add: slug_defs)
  moreover have "toSafeSlug (js ''--Caf_ 9  x--'') = js ''caf-9-x''"
    by (simp add: slug_defs)
  moreover have "toSafeSlug (js ''.jpg'') = js ''optimized-image''"
    by (simp add: slug_defs)
  ultimately show ?thesis
    using toSafeSlug_refines_spec by blast
qed

lemma replace_unsafe_units: "list_all is_slug_unit (replace_unsafe s)"
  unfolding replace_unsafe_def by (induction s) (simp_all add: is_slug_unit_def)

lemma list_all_dropWhile: "list_all P s \<Longrightarrow> list_all P (dropWhile Q s)"
  by (induction s) simp_all

lemma collapse_units:
  "list_all is_slug_unit s \<Longrightarrow> list_all is_slug_unit (replace_runs (\<lambda>c. c = hyphen) [hyphen] s)"
proof (induction "\<lambda>c. c = hyphen" "[hyphen]" s rule: replace_runs.induct)
  case 1
  show ?case by simp
next
  case (2 c cs)
  then show ?case
    by (cases "c = hyphen") (simp_all add: list_all_dropWhile is_slug_unit_def)
qed

lemma no_double_butlast: "no_double s \<Longrightarrow> no_double (butlast s)"
  by (induction s rule: no_double.induct) (auto split: if_splits)

lemma strip_edge_cases:
  "strip_edge_hyphens s =
     (let s1 = (if s \<noteq> [] \<and> hd s = hyphen then tl s else s)
      in if s1 \<noteq> [] \<and> last s1 = hyphen then butlast s1 else s1)"
  by (cases s) (simp_all add: strip_edge_hyphens_def)

lemma list_all_tl: "list_all P s \<Longrightarrow> list_all P (tl s)"
  by (cases s) simp_all

lemma list_all_butlast: "list_all P s \<Longrightarrow> list_all P (butlast s)"
  by (induction s) simp_all

lemma no_double_tl': "no_double s \<Longrightarrow> no_double (tl s)"
  by (cases s) (simp_all add: no_double_tl)

lemma no_double_hd_tl: "no_double s \<Longrightarrow> s \<noteq> [] \<Longrightarrow> hd s = hyphen \<Longrightarrow> tl s \<noteq> [] \<Longrightarrow> hd (tl s) \<noteq> hyphen"
  by (cases s rule: no_double.cases) auto

lemma no_double_last_butlast:
  "no_double s \<Longrightarrow> s \<noteq> [] \<Longrightarrow> last s = hyphen \<Longrightarrow> butlast s \<noteq> [] \<Longrightarrow> last (butlast s) \<noteq> hyphen"
  using no_double_last [of "butlast s"] by (metis append_butlast_last_id)

lemma hd_butlast: "butlast s \<noteq> [] \<Longrightarrow> hd (butlast s) = hd s"
  by (cases s) (auto split: if_splits)

lemma strip_edge_clean:
  assumes "no_double s" and "list_all is_slug_unit s" and "strip_edge_hyphens s \<noteq> []"
  shows "clean_slug (strip_edge_hyphens s)"
proof -
  define s1 where "s1 = (if s \<noteq> [] \<and> hd s = hyphen then tl s else s)"
  define r where "r = (if s1 \<noteq> [] \<and> last s1 = hyphen then butlast s1 else s1)"
  have r: "strip_edge_hyphens s = r"
    by (simp add: strip_edge_cases s1_def r_def Let_def)
  have nd1: "no_double s1" and u1: "list_all is_slug_unit s1"
    using assms(1,2) by (simp_all add: s1_def no_double_tl' list_all_tl)
  have h1: "s1 \<noteq> [] \<Longrightarrow> hd s1 \<noteq> hyphen"
    using assms(1) by (auto simp: s1_def no_double_hd_tl)
  have ndr: "no_double r" and ur: "list_all is_slug_unit r"
    using nd1 u1 by (simp_all add: r_def no_double_butlast list_all_butlast)
  have ne: "r \<noteq> []" using assms(3) r by simp
  then have s1ne: "s1 \<noteq> []" by (auto simp: r_def split: if_splits)
  have hr: "hd r \<noteq> hyphen"
    using ne h1 [OF s1ne] by (auto simp: r_def hd_butlast split: if_splits)
  have lr: "last r \<noteq> hyphen"
    using ne nd1 s1ne by (auto simp: r_def no_double_last_butlast split: if_splits)
  from ne ur ndr hr lr show ?thesis
    by (simp add: clean_slug_def r)
qed

lemma fallback_clean: "clean_slug (js ''optimized-image'')"
  by (simp add: clean_slug_def js_def is_slug_unit_def is_lower_def is_digit_def hyphen_def)

lemma toSafeSlug_clean: "clean_slug (toSafeSlug t)"
proof (cases "slug_base t = []")
  case True
  then show ?thesis by (simp add: toSafeSlug_def fallback_clean)
next
  case False
  have "clean_slug (slug_base t)"
    unfolding slug_base_def
    by (rule strip_edge_clean)
       (use False in \<open>simp_all add: no_double_collapse collapse_units replace_unsafe_units slug_base_def\<close>)
  with False show ?thesis by (simp add: toSafeSlug_def)
qed

lemma slug_unit_not_space: "is_slug_unit c \<Longrightarrow> \<not> is_space c"
  by (auto simp: is_slug_unit_def is_space_def is_lower_def is_digit_def hyphen_def)

lemma slug_unit_not_dot: "is_slug_unit c \<Longrightarrow> c \<noteq> dot"
  by (auto simp: is_slug_unit_def is_lower_def is_digit_def hyphen_def dot_def)

lemma slug_unit_lower: "is_slug_unit c \<Longrightarrow> lower_unit c = [c]"
  by (auto simp: is_slug_unit_def lower_unit_def is_lower_def is_digit_def is_upper_def hyphen_def)

lemma dropWhile_keeps: "s \<noteq> [] \<Longrightarrow> \<not> P (hd s) \<Longrightarrow> dropWhile P s = s"
  by (cases s) simp_all

lemma trim_clean: "clean_slug s \<Longrightarrow> trim s = s"
proof -
  assume c: "clean_slug s"
  then have ne: "s \<noteq> []" and u: "list_all is_slug_unit s" by (simp_all add: clean_slug_def)
  from ne u have "\<not> is_space (hd s)" "\<not> is_space (last s)"
    by (simp_all add: list_all_iff slug_unit_not_space)
  with ne show ?thesis
    by (simp add: trim_def dropWhile_keeps hd_rev)
qed

lemma replace_runs_none: "list_all (\<lambda>c. \<not> P c) s \<Longrightarrow> replace_runs P r s = s"
  by (induction s) simp_all

lemma toLowerCase_units: "list_all is_slug_unit s \<Longrightarrow> toLowerCase s = s"
  unfolding toLowerCase_def by (induction s) (simp_all add: slug_unit_lower)

lemma replace_unsafe_same: "list_all is_slug_unit s \<Longrightarrow> replace_unsafe s = s"
  unfolding replace_unsafe_def by (induction s) simp_all

lemma collapse_no_double: "no_double s \<Longrightarrow> replace_runs (\<lambda>c. c = hyphen) [hyphen] s = s"
  by (induction s rule: no_double.induct) auto

lemma strip_edge_same:
  "s \<noteq> [] \<Longrightarrow> hd s \<noteq> hyphen \<Longrightarrow> last s \<noteq> hyphen \<Longrightarrow> strip_edge_hyphens s = s"
  by (simp add: strip_edge_cases)

lemma toSafeSlug_fixes_clean:
  assumes "clean_slug s"
  shows "toSafeSlug s = s"
proof -
  from assms have ne: "s \<noteq> []" and u: "list_all is_slug_unit s" and nd: "no_double s"
    and h: "hd s \<noteq> hyphen" and l: "last s \<noteq> hyphen"
    by (simp_all add: clean_slug_def)
  have nodot: "dot \<notin> set s"
    using u by (auto simp: list_all_iff dest: slug_unit_not_dot)
  have nospace: "list_all (\<lambda>c. \<not> is_space c) s"
    using u by (auto simp: list_all_iff dest: slug_unit_not_space)
  have "slug_base s = s"
    by (simp add: slug_base_def trim_clean [OF assms] strip_dot_suffix_no_dot [OF nodot]
        replace_runs_none [OF nospace] toLowerCase_units [OF u] replace_unsafe_same [OF u]
        collapse_no_double [OF nd] strip_edge_same [OF ne h l])
  with ne show ?thesis by (simp add: toSafeSlug_def)
qed

text \<open>
  The slug that \<open>toSafeSlug\<close> returns is safe for every text: not empty, only units of
  \<open>[a-z0-9-]\<close>, no repeated hyphen, no hyphen at either end; and \<open>toSafeSlug\<close> leaves its own
  results as they are.
\<close>

theorem toSafeSlug_output:
  "toSafeSlug t \<noteq> [] \<and> list_all is_slug_unit (toSafeSlug t) \<and> no_double (toSafeSlug t) \<and>
   hd (toSafeSlug t) \<noteq> hyphen \<and> last (toSafeSlug t) \<noteq> hyphen \<and>
   toSafeSlug (toSafeSlug t) = toSafeSlug t"
  using toSafeSlug_clean [of t] toSafeSlug_fixes_clean [of "toSafeSlug t"]
  by (simp add: clean_slug_def)

text \<open>The slug of the first example is a slug that \<open>toSafeSlug\<close> returns unchanged.\<close>

theorem toSafeSlug_output_witness:
  "toSafeSlug (js ''my-beach-photo'') = js ''my-beach-photo'' \<and>
   list_all is_slug_unit (js ''my-beach-photo'')"
proof -
  have "toSafeSlug (js ''My Beach Photo.JPG'') = js ''my-beach-photo''"
    by (simp add: slug_defs)
  with toSafeSlug_output [of "js ''My Beach Photo.JPG''"] show ?thesis
    by simp
qed

section \<open>Rounding to a double\<close>

declare first_exp.simps [simp del]

lemma first_exp_range: "i \<le> j \<Longrightarrow> i \<le> first_exp P i j \<and> first_exp P i j \<le> j"
proof (induction P i j rule: first_exp.induct)
  case (1 P i j)
  show ?case
  proof (cases "j \<le> i \<or> P i")
    case True
    with 1 show ?thesis by (auto simp: first_exp.simps [of P i j])
  next
    case False
    with 1 have "i + 1 \<le> first_exp P (i + 1) j \<and> first_exp P (i + 1) j \<le> j" by simp
    with False show ?thesis by (simp add: first_exp.simps [of P i j])
  qed
qed

lemma first_exp_sat: "first_exp P i j < j \<Longrightarrow> P (first_exp P i j)"
proof (induction P i j rule: first_exp.induct)
  case (1 P i j)
  show ?case
  proof (cases "j \<le> i \<or> P i")
    case True
    with 1 show ?thesis by (auto simp: first_exp.simps [of P i j])
  next
    case False
    with 1 show ?thesis by (simp add: first_exp.simps [of P i j])
  qed
qed

lemma first_exp_min: "i \<le> k \<Longrightarrow> k < first_exp P i j \<Longrightarrow> \<not> P k"
proof (induction P i j rule: first_exp.induct)
  case (1 P i j)
  show ?case
  proof (cases "j \<le> i \<or> P i")
    case True
    with 1(2,3) show ?thesis
      by (auto simp: first_exp.simps [of P i j] split: if_splits)
  next
    case False
    show ?thesis
    proof (cases "k = i")
      case True
      with False show ?thesis by simp
    next
      case ne: False
      with 1 False show ?thesis by (simp add: first_exp.simps [of P i j])
    qed
  qed
qed

lemma first_exp_eq:
  "i \<le> e \<Longrightarrow> e \<le> j \<Longrightarrow> (e < j \<Longrightarrow> P e) \<Longrightarrow> (\<And>k. i \<le> k \<Longrightarrow> k < e \<Longrightarrow> \<not> P k) \<Longrightarrow>
   first_exp P i j = e"
proof -
  assume a: "i \<le> e" "e \<le> j" and sat: "e < j \<Longrightarrow> P e" and mn: "\<And>k. i \<le> k \<Longrightarrow> k < e \<Longrightarrow> \<not> P k"
  let ?r = "first_exp P i j"
  from a have r: "i \<le> ?r" "?r \<le> j" using first_exp_range [of i j P] by simp_all
  have "\<not> ?r < e"
  proof
    assume lt: "?r < e"
    then have "?r < j" using a by simp
    then have "P ?r" by (rule first_exp_sat)
    with mn [OF r(1) lt] show False by simp
  qed
  moreover have "\<not> e < ?r"
  proof
    assume lt: "e < ?r"
    then have "e < j" using r by simp
    then have "P e" by (rule sat)
    with first_exp_min [OF a(1) lt] show False by simp
  qed
  ultimately show ?thesis by simp
qed

lemma double_exp_range: "- 1022 \<le> double_exp x \<and> double_exp x \<le> 1023"
  unfolding double_exp_def using first_exp_range [of "- 1022" 1023] by simp

lemma double_exp_upper: "double_exp x < 1023 \<Longrightarrow> \<bar>x\<bar> < 2 powi (double_exp x + 1)"
  unfolding double_exp_def by (rule first_exp_sat)

lemma double_exp_lower: "- 1022 < double_exp x \<Longrightarrow> 2 powi (double_exp x) \<le> \<bar>x\<bar>"
proof -
  assume a: "- 1022 < double_exp x"
  have "\<not> \<bar>x\<bar> < 2 powi ((double_exp x - 1) + 1)"
    using a unfolding double_exp_def
    by (intro first_exp_min [where i = "- 1022" and j = 1023]) simp_all
  then show ?thesis by simp
qed

lemma double_exp_eq:
  "- 1022 \<le> e \<Longrightarrow> e \<le> 1023 \<Longrightarrow> (- 1022 < e \<Longrightarrow> 2 powi e \<le> \<bar>x\<bar>) \<Longrightarrow>
   (e < 1023 \<Longrightarrow> \<bar>x\<bar> < 2 powi (e + 1)) \<Longrightarrow> double_exp x = e"
  unfolding double_exp_def
proof (rule first_exp_eq)
  fix k :: int
  assume lo: "- 1022 < e \<Longrightarrow> 2 powi e \<le> \<bar>x\<bar>" and k: "- 1022 \<le> k" "k < e"
  then have "2 powi e \<le> \<bar>x\<bar>" by simp
  moreover have "(2::real) powi (k + 1) \<le> 2 powi e"
    using k by (intro power_int_increasing) simp_all
  ultimately show "\<not> \<bar>x\<bar> < 2 powi (k + 1)" by simp
qed simp_all

lemma double_exp_mono: "\<bar>x\<bar> \<le> \<bar>y\<bar> \<Longrightarrow> double_exp x \<le> double_exp y"
proof (rule ccontr)
  assume le: "\<bar>x\<bar> \<le> \<bar>y\<bar>" and "\<not> double_exp x \<le> double_exp y"
  then have lt: "double_exp y < double_exp x" by simp
  with double_exp_range [of x] have "double_exp y < 1023" by simp
  then have y: "\<bar>y\<bar> < 2 powi (double_exp y + 1)" by (rule double_exp_upper)
  from lt double_exp_range [of y] have "- 1022 < double_exp x" by simp
  then have "2 powi (double_exp x) \<le> \<bar>x\<bar>" by (rule double_exp_lower)
  moreover have "(2::real) powi (double_exp y + 1) \<le> 2 powi (double_exp x)"
    using lt by (intro power_int_increasing) simp_all
  ultimately show False using y le by simp
qed

lemma ulp_positive: "0 < ulp x"
  by (simp add: ulp_def zero_less_power_int)

lemma round_even_of_int [simp]: "round_even (of_int z) = z"
  by (simp add: round_even_def)

lemma round_even_zero [simp]: "round_even 0 = 0"
  using round_even_of_int [of 0] by simp

lemma round_even_numeral [simp]: "round_even (numeral n) = numeral n"
  using round_even_of_int [of "numeral n"] by simp

lemma round_even_power2 [simp]: "round_even (2 ^ n) = 2 ^ n"
  using round_even_of_int [of "2 ^ n"] by simp

lemma round_even_bounds: "of_int (round_even x) \<le> x + 1 / 2 \<and> x - 1 / 2 \<le> of_int (round_even x)"
  unfolding round_even_def Let_def by (auto; linarith)

lemma round_even_floor: "\<lfloor>x\<rfloor> \<le> round_even x \<and> round_even x \<le> \<lfloor>x\<rfloor> + 1"
  by (simp add: round_even_def Let_def)

lemma round_even_mono: "x \<le> y \<Longrightarrow> round_even x \<le> round_even y"
proof -
  assume le: "x \<le> y"
  then have f: "\<lfloor>x\<rfloor> \<le> \<lfloor>y\<rfloor>" by (rule floor_mono)
  show ?thesis
  proof (cases "\<lfloor>x\<rfloor> = \<lfloor>y\<rfloor>")
    case True
    with le show ?thesis by (auto simp: round_even_def Let_def)
  next
    case False
    with f have "\<lfloor>x\<rfloor> + 1 \<le> \<lfloor>y\<rfloor>" by simp
    with round_even_floor [of x] round_even_floor [of y] show ?thesis by linarith
  qed
qed

lemma round_even_nonneg: "0 \<le> x \<Longrightarrow> 0 \<le> round_even x"
  using round_even_mono [of 0 x] by simp

lemma fl_zero [simp]: "fl 0 = 0"
  by (simp add: fl_def)

lemma fl_nonneg: "0 \<le> x \<Longrightarrow> 0 \<le> fl x"
  using ulp_positive [of x] by (simp add: fl_def round_even_nonneg)

lemma fl_mono_nonneg:
  assumes "0 \<le> x" and "x \<le> y"
  shows "fl x \<le> fl y"
proof -
  have e: "double_exp x \<le> double_exp y"
    using assms by (intro double_exp_mono) simp
  show ?thesis
  proof (cases "double_exp x = double_exp y")
    case True
    then have u: "ulp x = ulp y" by (simp add: ulp_def)
    have "x / ulp y \<le> y / ulp y"
      using assms(2) ulp_positive [of y] by (simp add: divide_right_mono)
    then have "round_even (x / ulp y) \<le> round_even (y / ulp y)" by (rule round_even_mono)
    then show ?thesis
      using ulp_positive [of y] by (simp add: fl_def u)
  next
    case False
    with e have lt: "double_exp x < double_exp y" by simp
    with double_exp_range [of y] have "double_exp x < 1023" by simp
    then have "\<bar>x\<bar> < 2 powi (double_exp x + 1)" by (rule double_exp_upper)
    then have "x \<le> 2 powi (double_exp x + 1)" by simp
    also have "(2::real) powi (double_exp x + 1) = 2 ^ 53 * ulp x"
      by (simp add: ulp_def power_int_diff power_int_add)
    finally have "x / ulp x \<le> 2 ^ 53"
      using ulp_positive [of x] by (simp add: pos_divide_le_eq)
    then have "round_even (x / ulp x) \<le> round_even (2 ^ 53)" by (rule round_even_mono)
    also have "round_even (2 ^ 53) = 2 ^ 53"
      using round_even_of_int [of "2 ^ 53"] by simp
    finally have "fl x \<le> 2 ^ 53 * ulp x"
      using ulp_positive [of x] by (simp add: fl_def)
    also have "\<dots> = 2 powi (double_exp x + 1)"
      by (simp add: ulp_def power_int_diff power_int_add)
    also have "\<dots> \<le> 2 powi (double_exp y)"
      using lt by (intro power_int_increasing) simp_all
    finally have left: "fl x \<le> 2 powi (double_exp y)" .
    from lt double_exp_range [of x] have "- 1022 < double_exp y" by simp
    then have "2 powi (double_exp y) \<le> \<bar>y\<bar>" by (rule double_exp_lower)
    moreover have "0 \<le> y" using assms by simp
    ultimately have "2 powi (double_exp y) \<le> y" by simp
    moreover have "(2::real) powi (double_exp y) = 2 ^ 52 * ulp y"
      by (simp add: ulp_def power_int_diff)
    ultimately have "2 ^ 52 \<le> y / ulp y"
      using ulp_positive [of y] by (simp add: pos_le_divide_eq)
    then have "round_even (2 ^ 52) \<le> round_even (y / ulp y)" by (rule round_even_mono)
    moreover have "round_even (2 ^ 52) = 2 ^ 52"
      using round_even_of_int [of "2 ^ 52"] by simp
    ultimately have "2 ^ 52 * ulp y \<le> fl y"
      using ulp_positive [of y] by (simp add: fl_def)
    then have "2 powi (double_exp y) \<le> fl y"
      by (simp add: ulp_def power_int_diff)
    with left show ?thesis by simp
  qed
qed

lemma fl_binade:
  assumes "- 1022 \<le> e" and "e \<le> 1023" and "2 powi e \<le> \<bar>x\<bar>" and "\<bar>x\<bar> < 2 powi (e + 1)"
  shows "fl x = of_int (round_even (x / 2 powi (e - 52))) * 2 powi (e - 52)"
proof -
  from assms have "double_exp x = e" by (intro double_exp_eq) simp_all
  then show ?thesis by (simp add: fl_def ulp_def)
qed

lemma fl_exact:
  assumes "x = of_int m * 2 powi k" and "\<bar>m\<bar> < 2 ^ 53" and "- 1074 \<le> k"
  shows "fl x = x"
proof -
  have le: "double_exp x \<le> k + 52"
  proof (cases "double_exp x = - 1022")
    case True
    with assms(3) show ?thesis by simp
  next
    case False
    with double_exp_range [of x] have "- 1022 < double_exp x" by simp
    then have "2 powi (double_exp x) \<le> \<bar>x\<bar>" by (rule double_exp_lower)
    also have "\<bar>x\<bar> = of_int \<bar>m\<bar> * 2 powi k"
      by (simp add: assms(1) abs_mult)
    also have "\<dots> < 2 ^ 53 * 2 powi k"
    proof -
      have "(of_int \<bar>m\<bar> :: real) < of_int (2 ^ 53)"
        using assms(2) by (simp only: of_int_less_iff)
      then show ?thesis by (simp add: zero_less_power_int)
    qed
    also have "\<dots> = 2 powi (k + 53)"
      by (simp add: power_int_add)
    finally have lt: "2 powi (double_exp x) < (2::real) powi (k + 53)" .
    have "double_exp x < k + 53"
    proof (rule ccontr)
      assume "\<not> double_exp x < k + 53"
      then have "(2::real) powi (k + 53) \<le> 2 powi (double_exp x)"
        by (intro power_int_increasing) simp_all
      with lt show False by simp
    qed
    then show ?thesis by simp
  qed
  define n where "n = nat (k + 52 - double_exp x)"
  have "x / ulp x = of_int m * 2 powi (k - (double_exp x - 52))"
    by (simp add: assms(1) ulp_def power_int_diff)
  also have "k - (double_exp x - 52) = int n"
    using le by (simp add: n_def)
  also have "of_int m * (2::real) powi (int n) = of_int (m * 2 ^ n)"
    by simp
  finally have "round_even (x / ulp x) = m * 2 ^ n"
    by (simp only: round_even_of_int)
  then have "fl x = of_int (m * 2 ^ n) * ulp x"
    by (simp add: fl_def)
  also have "\<dots> = of_int m * (2 powi (int n) * 2 powi (double_exp x - 52))"
    by (simp add: ulp_def)
  also have "2 powi (int n) * (2::real) powi (double_exp x - 52) = 2 powi k"
    using le by (simp add: n_def power_int_add [symmetric])
  finally show ?thesis by (simp add: assms(1))
qed

lemma fl_of_nat: "n < 2 ^ 53 \<Longrightarrow> fl (real n) = real n"
  using fl_exact [of "real n" "int n" 0] by simp

lemma fl_one [simp]: "fl 1 = 1"
  using fl_of_nat [of 1] by simp

lemma fl_numeral:
  assumes "(numeral n :: real) < 2 ^ 53"
  shows "fl (numeral n) = numeral n"
proof -
  have "(of_int (numeral n) :: real) < of_int (2 ^ 53)"
    using assms by simp
  then have "(numeral n :: int) < 2 ^ 53"
    by (simp only: of_int_less_iff)
  then have m: "\<bar>numeral n :: int\<bar> < 2 ^ 53"
    by (simp only: abs_numeral)
  have x: "(numeral n :: real) = of_int (numeral n) * 2 powi 0"
    by simp
  from x m show ?thesis
    by (rule fl_exact) simp
qed

lemma fl_ge_one: "1 \<le> x \<Longrightarrow> 1 \<le> fl x"
  using fl_mono_nonneg [of 1 x] by simp

section \<open>Evaluations in double arithmetic\<close>

lemma fl_literal_0_85: "fl (17 / 20) = 7656119366529843 / 9007199254740992"
  using fl_binade [of "- 1" "17 / 20"]
  by (simp add: power_int_minus round_even_def)

lemma fl_0_85_exact: "fl (7656119366529843 / 9007199254740992) = 7656119366529843 / 9007199254740992"
  using fl_binade [of "- 1" "7656119366529843 / 9007199254740992"]
  by (simp add: power_int_minus round_even_def)

lemma fl_product_50: "fl (191402984163246075 / 4503599627370496) = 85 / 2"
  using fl_binade [of 5 "191402984163246075 / 4503599627370496"]
  by (simp add: power_int_minus round_even_def)

lemma fl_sum_50: "fl (105 / 2) = 105 / 2"
  using fl_binade [of 5 "105 / 2"]
  by (simp add: power_int_minus round_even_def)

lemma fl_product_99: "fl (757955817286454457 / 9007199254740992) = 5921529822550425 / 70368744177664"
  using fl_binade [of 6 "757955817286454457 / 9007199254740992"]
  by (simp add: power_int_minus round_even_def)

lemma fl_sum_99: "fl (6625217264327065 / 70368744177664) = 6625217264327065 / 70368744177664"
  using fl_binade [of 6 "6625217264327065 / 70368744177664"]
  by (simp add: power_int_minus round_even_def)

lemma fl_sum_1: "fl (97728111913939763 / 9007199254740992) = 6108006994621235 / 562949953421312"
  using fl_binade [of 3 "97728111913939763 / 9007199254740992"]
  by (simp add: power_int_minus round_even_def)

lemma fl_product_100: "fl (191402984163246075 / 2251799813685248) = 85"
  using fl_binade [of 6 "191402984163246075 / 2251799813685248"]
  by (simp add: power_int_minus round_even_def)

lemma fl_half: "fl (1 / 2) = 1 / 2"
  using fl_binade [of "- 1" "1 / 2"]
  by (simp add: power_int_minus round_even_def)

lemma fl_quotient_2560_1600: "fl (8 / 5) = 3602879701896397 / 2251799813685248"
  using fl_binade [of 0 "8 / 5"]
  by (simp add: power_int_minus round_even_def)

lemma fl_quotient_1440_1200: "fl (6 / 5) = 5404319552844595 / 4503599627370496"
  using fl_binade [of 0 "6 / 5"]
  by (simp add: power_int_minus round_even_def)

lemma fl_quotient_512_1600: "fl (8 / 25) = 5764607523034235 / 18014398509481984"
  using fl_binade [of "- 2" "8 / 25"]
  by (simp add: power_int_minus round_even_def)

lemma fl_quotient_512_1200: "fl (32 / 75) = 7686143364045647 / 18014398509481984"
  using fl_binade [of "- 2" "32 / 75"]
  by (simp add: power_int_minus round_even_def)

lemma fl_product_1600: "fl (144115188075855875 / 281474976710656) = 512"
  using fl_binade [of 9 "144115188075855875 / 281474976710656"]
  by (simp add: power_int_minus round_even_def)

lemma fl_product_1200: "fl (432345564227567625 / 1125899906842624) = 384"
  using fl_binade [of 8 "432345564227567625 / 1125899906842624"]
  by (simp add: power_int_minus round_even_def)

lemma fl_quotient_2560_11: "fl (2560 / 11) = 8188362958855447 / 35184372088832"
  using fl_binade [of 7 "2560 / 11"]
  by (simp add: power_int_minus round_even_def)

lemma fl_quotient_1440_2112: "fl (15 / 22) = 6141272219141585 / 9007199254740992"
  using fl_binade [of "- 1" "15 / 22"]
  by (simp add: power_int_minus round_even_def)

lemma fl_product_11: "fl (67553994410557435 / 9007199254740992) = 8444249301319679 / 1125899906842624"
  using fl_binade [of 2 "67553994410557435 / 9007199254740992"]
  by (simp add: power_int_minus round_even_def)

lemma fl_product_2112: "fl (202661983231672305 / 140737488355328) = 1440"
  using fl_binade [of 10 "202661983231672305 / 140737488355328"]
  by (simp add: power_int_minus round_even_def)

lemma progress_value_mono:
  assumes "0 \<le> p" and "p \<le> q"
  shows "progress_value p \<le> progress_value q"
proof -
  have c: "0 \<le> fl (85 / 100)"
    by (rule fl_nonneg) simp
  from assms c have "0 \<le> p * fl (85 / 100)" "p * fl (85 / 100) \<le> q * fl (85 / 100)"
    by (simp_all add: mult_right_mono)
  then have le: "fl (p * fl (85 / 100)) \<le> fl (q * fl (85 / 100))"
    and nn: "0 \<le> fl (p * fl (85 / 100))"
    by (simp_all add: fl_mono_nonneg fl_nonneg)
  from nn le show ?thesis
    unfolding progress_value_def by (intro fl_mono_nonneg) simp_all
qed

lemma progress_value_0: "progress_value 0 = 10"
  by (simp add: progress_value_def fl_numeral)

lemma progress_value_1: "progress_value 1 = 6108006994621235 / 562949953421312"
  by (simp add: progress_value_def fl_literal_0_85 fl_0_85_exact fl_sum_1)

lemma progress_value_50: "progress_value 50 = 105 / 2"
  by (simp add: progress_value_def fl_literal_0_85 fl_product_50 fl_sum_50)

lemma progress_value_99: "progress_value 99 = 6625217264327065 / 70368744177664"
  by (simp add: progress_value_def fl_literal_0_85 fl_product_99 fl_sum_99)

lemma progress_value_100: "progress_value 100 = 95"
  by (simp add: progress_value_def fl_literal_0_85 fl_product_100 fl_numeral)

section \<open>The fields of the state under the primitive steps\<close>

lemma revokeObjectURL_fields [simp]:
  "images (revokeObjectURL u w) = images w"
  "history (revokeObjectURL u w) = history w"
  "url_count (revokeObjectURL u w) = url_count w"
  "id_count (revokeObjectURL u w) = id_count w"
  "isProcessing (revokeObjectURL u w) = isProcessing w"
  "isRenaming (revokeObjectURL u w) = isRenaming w"
  by (simp_all add: revokeObjectURL_def)

lemma revoke_record_fields [simp]:
  "images (revoke_record img w) = images w"
  "history (revoke_record img w) = history w"
  "url_count (revoke_record img w) = url_count w"
  "id_count (revoke_record img w) = id_count w"
  "isProcessing (revoke_record img w) = isProcessing w"
  "isRenaming (revoke_record img w) = isRenaming w"
  by (simp_all add: revoke_record_def Let_def split: option.splits)

lemma revoke_all_fields [simp]:
  "images (revoke_all imgs w) = images w"
  "history (revoke_all imgs w) = history w"
  "url_count (revoke_all imgs w) = url_count w"
  "id_count (revoke_all imgs w) = id_count w"
  "isProcessing (revoke_all imgs w) = isProcessing w"
  "isRenaming (revoke_all imgs w) = isRenaming w"
  unfolding revoke_all_def by (induction imgs arbitrary: w; simp)+

lemma setImages_fields [simp]:
  "images (setImages new w) = new"
  "history (setImages new w) = history w"
  "url_count (setImages new w) = url_count w"
  "id_count (setImages new w) = id_count w"
  "isProcessing (setImages new w) = isProcessing w"
  "isRenaming (setImages new w) = isRenaming w"
  by (simp_all add: setImages_def)

lemma record_step_fields [simp]:
  "images (record_step i s w) = images w"
  "history (record_step i s w) = history w @ [(i, s)]"
  "url_count (record_step i s w) = url_count w"
  "id_count (record_step i s w) = id_count w"
  by (simp_all add: record_step_def)

lemma createObjectURL_fields [simp]:
  "fst (createObjectURL e b w) = object_url e (url_count w)"
  "images (snd (createObjectURL e b w)) = images w"
  "history (snd (createObjectURL e b w)) = history w"
  "url_count (snd (createObjectURL e b w)) = Suc (url_count w)"
  "id_count (snd (createObjectURL e b w)) = id_count w"
  by (simp_all add: createObjectURL_def Let_def)

section \<open>Updates of one record\<close>

lemma update_record_length [simp]: "length (update_record i f b) = length b"
  by (simp add: update_record_def)

lemma update_record_absent:
  "i \<notin> set (map image_id b) \<Longrightarrow> update_record i f b = b"
  unfolding update_record_def by (induction b) auto

lemma update_record_others: "others_unchanged i b (update_record i f b)"
  unfolding others_unchanged_def update_record_def
  by (induction b) auto

lemma images_start_processing [simp]:
  "images (start_processing i w) = update_record i mark_processing (images w)"
  by (simp add: start_processing_def)

lemma images_onProgress [simp]:
  "images (onProgress i p w) = update_record i (\<lambda>img. img\<lparr>progress := progress_value p\<rparr>) (images w)"
  by (simp add: onProgress_def)

lemma images_finish_completed [simp]:
  "images (finish_completed i n u f w) = update_record i (mark_completed n u f) (images w)"
  by (simp add: finish_completed_def)

lemma images_finish_error [simp]:
  "images (finish_error i w) = update_record i mark_error (images w)"
  by (simp add: finish_error_def)

lemma update_record_twice:
  "(\<And>r. image_id (f r) = image_id r) \<Longrightarrow>
   update_record i g (update_record i f b) = update_record i (\<lambda>r. g (f r)) b"
  by (simp add: update_record_def)

lemma image_id_store_progress [simp]: "image_id (store_progress reports r) = image_id r"
  unfolding store_progress_def by (induction reports arbitrary: r) simp_all

lemma status_store_progress [simp]: "status (store_progress reports r) = status r"
  unfolding store_progress_def by (induction reports arbitrary: r) simp_all

lemma image_id_marks [simp]:
  "image_id (mark_processing r) = image_id r"
  "image_id (mark_error r) = image_id r"
  "image_id (mark_completed n u f r) = image_id r"
  by (simp_all add: mark_processing_def mark_error_def mark_completed_def)

lemma fold_onProgress_images:
  "images (fold (onProgress i) reports w) =
   update_record i (store_progress reports) (images w)"
proof (induction reports arbitrary: w)
  case Nil
  show ?case by (simp add: store_progress_def update_record_def)
next
  case (Cons q qs)
  have "images (fold (onProgress i) (q # qs) w) =
        update_record i (store_progress qs) (update_record i (\<lambda>img. img\<lparr>progress := progress_value q\<rparr>) (images w))"
    by (simp add: Cons)
  also have "\<dots> = update_record i (\<lambda>r. store_progress qs (r\<lparr>progress := progress_value q\<rparr>)) (images w)"
    by (rule update_record_twice) simp
  finally show ?case by (simp add: store_progress_def)
qed

lemma fold_onProgress_fields [simp]:
  "url_count (fold (onProgress i) reports w) = url_count w"
  "history (fold (onProgress i) reports w) = history w @ map (\<lambda>q. (i, Progressed q)) reports"
  by (induction reports arbitrary: w; simp add: onProgress_def)+

lemma images_processImage:
  "images (processImage e s p w) =
   update_record (image_id p) (outcome_update e s p (object_url e (url_count w))) (images w)"
proof (cases "snd (engine_run e s p)")
  case None
  have "images (processImage e s p w) =
        update_record (image_id p) mark_error
          (update_record (image_id p) (store_progress (fst (engine_run e s p)))
            (update_record (image_id p) mark_processing (images w)))"
    using None by (simp add: processImage_def Let_def split_def fold_onProgress_images)
  also have "\<dots> = update_record (image_id p)
      (\<lambda>r. mark_error (store_progress (fst (engine_run e s p)) (mark_processing r))) (images w)"
    by (simp add: update_record_twice)
  finally show ?thesis using None by (simp add: outcome_update_def [abs_def] Let_def)
next
  case (Some c)
  have "images (processImage e s p w) =
        update_record (image_id p)
          (mark_completed (file_size c) (object_url e (url_count w)) (default_file_name s p))
          (update_record (image_id p) (store_progress (fst (engine_run e s p)))
            (update_record (image_id p) mark_processing (images w)))"
    using Some
    by (simp add: processImage_def Let_def split_def fold_onProgress_images start_processing_def)
  also have "\<dots> = update_record (image_id p)
      (\<lambda>r. mark_completed (file_size c) (object_url e (url_count w)) (default_file_name s p)
             (store_progress (fst (engine_run e s p)) (mark_processing r))) (images w)"
    by (simp add: update_record_twice)
  finally show ?thesis using Some by (simp add: outcome_update_def [abs_def] Let_def)
qed

lemma history_processImage:
  "history (processImage e s p w) = history w @ image_trace e s p"
  by (cases "snd (engine_run e s p)")
     (simp_all add: processImage_def Let_def split_def image_trace_def start_processing_def
        finish_error_def finish_completed_def)

text \<open>
  Claim C2. Each update that \<open>processImage\<close> makes for the record \<open>i\<close> (the transition to
  \<open>processing\<close>, an update of the progress callback, the completed update, the error
  update), and \<open>processImage\<close> as a whole, leaves every record with another identifier as it
  was; and when no record of the batch has the identifier, because the record was removed,
  the batch after the update is the batch before it: the late result is not put back.
\<close>

theorem registry_updates_frame:
  "others_unchanged i (images w) (images (start_processing i w)) \<and>
   others_unchanged i (images w) (images (onProgress i q w)) \<and>
   others_unchanged i (images w) (images (finish_completed i n u f w)) \<and>
   others_unchanged i (images w) (images (finish_error i w)) \<and>
   others_unchanged (image_id p) (images w) (images (processImage e s p w)) \<and>
   (i \<notin> set (map image_id (images w)) \<longrightarrow>
      images (start_processing i w) = images w \<and>
      images (onProgress i q w) = images w \<and>
      images (finish_completed i n u f w) = images w \<and>
      images (finish_error i w) = images w) \<and>
   (image_id p \<notin> set (map image_id (images w)) \<longrightarrow>
      images (processImage e s p w) = images w)"
  by (simp add: update_record_others update_record_absent images_processImage)

lemma sample_world_images:
  "images sample_world =
     [pending_record (js ''id0'') sample_png (js ''blob:0''),
      pending_record (js ''id1'') sample_gif (js ''blob:1'')]"
  by (simp add: sample_world_def addFiles_def initial_world_def sample_env_def Let_def
      createObjectURL_def pending_record_def split_def js_def)

text \<open>
  Claim C2 at the batch of two files: a completed update for an identifier that is not in the
  batch changes nothing, and a progress update for the first record leaves the second.
\<close>

theorem registry_updates_frame_witness:
  "js ''id7'' \<notin> set (map image_id (images sample_world)) \<and>
   images (finish_completed (js ''id7'') 1 (js ''blob:2'') (js ''a_opti.webp'') sample_world) =
     images sample_world \<and>
   others_unchanged (js ''id0'') (images sample_world)
     (images (onProgress (js ''id0'') 50 sample_world))"
proof -
  have absent: "js ''id7'' \<notin> set (map image_id (images sample_world))"
    by (simp add: sample_world_images pending_record_def js_def)
  from absent
    registry_updates_frame [of "js ''id7''" sample_world 0 1 "js ''blob:2''" "js ''a_opti.webp''"]
    registry_updates_frame [of "js ''id0''" sample_world 50]
  show ?thesis by blast
qed

section \<open>The batch driver\<close>

lemma status_outcome_update [simp]:
  "status (outcome_update e s p url r) = final_status e s p"
  by (simp add: outcome_update_def final_status_def Let_def mark_error_def mark_completed_def
      split: option.splits)

lemma image_id_outcome_update [simp]:
  "image_id (outcome_update e s p url r) = image_id r"
  by (simp add: outcome_update_def Let_def split: option.splits)

lemma fold_processImage_history:
  "history (fold (processImage e s) ps w) = history w @ concat (map (image_trace e s) ps)"
  by (induction ps arbitrary: w) (simp_all add: history_processImage)

lemma fold_processImage_ids:
  "map image_id (images (fold (processImage e s) ps w)) = map image_id (images w)"
proof (induction ps arbitrary: w)
  case Nil
  show ?case by simp
next
  case (Cons p ps)
  have "map image_id (images (processImage e s p w)) = map image_id (images w)"
    by (simp add: images_processImage update_record_def)
  with Cons show ?case by simp
qed

lemma find_absent: "v \<notin> f ` set xs \<Longrightarrow> find (\<lambda>q. f q = v) xs = None"
  by (induction xs) auto

lemma find_absent_filter: "v \<notin> f ` set xs \<Longrightarrow> find (\<lambda>q. f q = v) (filter Q xs) = None"
  by (induction xs) auto

lemma fold_processImage_images:
  "distinct (map image_id ps) \<Longrightarrow>
   list_all2 (processed_as e s ps) (images w) (images (fold (processImage e s) ps w))"
proof (induction ps arbitrary: w)
  case Nil
  show ?case by (simp add: processed_as_def list_all2_same)
next
  case (Cons p ps)
  let ?h = "\<lambda>r. if image_id r = image_id p
                then outcome_update e s p (object_url e (url_count w)) r else r"
  let ?w1 = "processImage e s p w"
  have fresh: "find (\<lambda>q. image_id q = image_id p) ps = None"
    using Cons.prems by (simp add: find_absent)
  have step: "images ?w1 = map ?h (images w)"
    by (simp add: images_processImage update_record_def)
  from Cons have "list_all2 (processed_as e s ps) (images ?w1) (images (fold (processImage e s) ps ?w1))"
    by simp
  then have "list_all2 (\<lambda>r. processed_as e s ps (?h r)) (images w)
               (images (fold (processImage e s) ps ?w1))"
    by (simp add: step list_all2_map1)
  then have "list_all2 (processed_as e s (p # ps)) (images w)
               (images (fold (processImage e s) ps ?w1))"
  proof (rule list_all2_mono)
    fix r r'
    assume a: "processed_as e s ps (?h r) r'"
    show "processed_as e s (p # ps) r r'"
    proof (cases "image_id r = image_id p")
      case True
      with a fresh show ?thesis by (simp add: processed_as_def eq_commute)
    next
      case False
      with a show ?thesis by (auto simp: processed_as_def eq_commute)
    qed
  qed
  then show ?case by simp
qed

lemma find_filter_distinct:
  "distinct (map f xs) \<Longrightarrow> r \<in> set xs \<Longrightarrow>
   find (\<lambda>p. f p = f r) (filter Q xs) = (if Q r then Some r else None)"
proof (induction xs)
  case Nil
  then show ?case by simp
next
  case (Cons x xs)
  show ?case
  proof (cases "x = r")
    case True
    have "find (\<lambda>p. f p = f r) (filter Q xs) = None"
      using Cons.prems True by (simp add: find_absent_filter)
    with True show ?thesis by simp
  next
    case False
    with Cons.prems have "r \<in> set xs" "f x \<noteq> f r" by auto
    with Cons show ?thesis by simp
  qed
qed

lemma images_processAll:
  "images (processAll e s w) =
   images (fold (processImage e s) (filter (\<lambda>i. status i \<noteq> Completed) (images w))
             (w\<lparr>isProcessing := True\<rparr>))"
  by (simp add: processAll_def Let_def)

lemma processAll_results:
  assumes "distinct (map image_id (images w))"
  shows "list_all2 (batch_result e s) (images w) (images (processAll e s w))"
proof -
  let ?ps = "filter (\<lambda>i. status i \<noteq> Completed) (images w)"
  let ?w1 = "w\<lparr>isProcessing := True\<rparr>"
  have "distinct (map image_id ?ps)"
    using assms by (simp add: distinct_map_filter)
  then have "list_all2 (processed_as e s ?ps) (images ?w1) (images (fold (processImage e s) ?ps ?w1))"
    by (rule fold_processImage_images)
  then have "list_all2 (processed_as e s ?ps) (images w) (images (processAll e s w))"
    by (simp add: images_processAll)
  then show ?thesis
  proof (rule list.rel_mono_strong)
    fix r r'
    assume r: "r \<in> set (images w)" and a: "processed_as e s ?ps r r'"
    have "find (\<lambda>p. image_id p = image_id r) ?ps = (if status r \<noteq> Completed then Some r else None)"
      using assms r by (rule find_filter_distinct)
    with a show "batch_result e s r r'"
      by (auto simp: processed_as_def batch_result_def split: if_splits)
  qed
qed

text \<open>
  Claim C4. On a batch with distinct identifiers, \<open>processAll\<close> records the steps of exactly
  the records that were not completed, record after record in the order of the batch, each
  run of steps beginning with \<open>Started\<close> and ending with \<open>Finished\<close> or \<open>Failed\<close> before the
  next begins; a completed record is left as it was, and every other record ends completed
  or in error according to what the engine did for that record alone, whatever happened to
  the records before it.
\<close>

theorem processAll_sequential:
  assumes "distinct (map image_id (images w))"
  shows "history (processAll e s w) =
           history w @
           concat (map (image_trace e s) (filter (\<lambda>i. status i \<noteq> Completed) (images w))) \<and>
         list_all2 (batch_result e s) (images w) (images (processAll e s w))"
proof -
  have "history (processAll e s w) =
          history w @
          concat (map (image_trace e s) (filter (\<lambda>i. status i \<noteq> Completed) (images w)))"
    by (simp add: processAll_def Let_def fold_processImage_history)
  with processAll_results [OF assms] show ?thesis by blast
qed

lemma mixed_world_images:
  "images mixed_world =
     [pending_record (js ''id0'') sample_gif (js ''blob:0''),
      pending_record (js ''id1'') sample_png (js ''blob:1'')]"
  by (simp add: mixed_world_def addFiles_def initial_world_def sample_env_def Let_def
      createObjectURL_def pending_record_def split_def js_def)

lemma sample_engine_original_gif:
  "image_file r = sample_gif \<Longrightarrow>
   engine_run sample_env (sample_settings Original) r = ([50], None)"
  by (simp add: engine_run_def sample_env_def compression_options_def sample_settings_def
      sample_gif_def js_def)

lemma sample_engine_original_png:
  "image_file r = sample_png \<Longrightarrow>
   snd (engine_run sample_env (sample_settings Original) r) \<noteq> None \<and>
   fst (engine_run sample_env (sample_settings Original) r) = [0, 50, 100]"
  by (simp add: engine_run_def sample_env_def compression_options_def sample_settings_def
      sample_png_def js_def)

text \<open>
  Claim C4 at a GIF followed by a PNG with the format \<open>original\<close>: the engine fails on the
  first, and the second is still processed, after it.
\<close>

theorem processAll_sequential_witness:
  "distinct (map image_id (images mixed_world)) \<and>
   history (processAll sample_env (sample_settings Original) mixed_world) =
     [(js ''id0'', Started), (js ''id0'', Progressed 50), (js ''id0'', Failed),
      (js ''id1'', Started), (js ''id1'', Progressed 0), (js ''id1'', Progressed 50),
      (js ''id1'', Progressed 100), (js ''id1'', Finished)] \<and>
   map status (images (processAll sample_env (sample_settings Original) mixed_world)) =
     [Error, Completed]"
proof -
  have d: "distinct (map image_id (images mixed_world))"
    by (simp add: mixed_world_images pending_record_def js_def)
  have h0: "history mixed_world = []"
    by (simp add: mixed_world_def addFiles_def split_def Let_def initial_world_def)
  note inst = processAll_sequential [OF d, of sample_env "sample_settings Original"]
  from inst have "history (processAll sample_env (sample_settings Original) mixed_world) =
     [(js ''id0'', Started), (js ''id0'', Progressed 50), (js ''id0'', Failed),
      (js ''id1'', Started), (js ''id1'', Progressed 0), (js ''id1'', Progressed 50),
      (js ''id1'', Progressed 100), (js ''id1'', Finished)]"
    by (simp add: h0 mixed_world_images image_trace_def pending_record_def
        sample_engine_original_gif sample_engine_original_png)
  moreover from inst
  have "map status (images (processAll sample_env (sample_settings Original) mixed_world)) =
     [Error, Completed]"
    by (auto simp: mixed_world_images list_all2_Cons1 batch_result_def final_status_def
        pending_record_def sample_engine_original_gif sample_engine_original_png)
  ultimately show ?thesis using d by blast
qed

section \<open>Status, result and error\<close>

lemma store_progress_fields [simp]:
  "optimizedUrl (store_progress reports r) = optimizedUrl r"
  "optimizedSize (store_progress reports r) = optimizedSize r"
  "error (store_progress reports r) = error r"
  unfolding store_progress_def by (induction reports arbitrary: r; simp)+

lemma store_progress_source [simp]:
  "image_file (store_progress reports r) = image_file r"
  "preview (store_progress reports r) = preview r"
  unfolding store_progress_def by (induction reports arbitrary: r; simp)+

text \<open>
  A batch run adds, removes and reorders no record, and changes neither the source file nor
  the preview URL of a record.
\<close>

theorem processAll_keeps_batch:
  "map image_id (images (processAll e s w)) = map image_id (images w) \<and>
   map image_file (images (processAll e s w)) = map image_file (images w) \<and>
   map preview (images (processAll e s w)) = map preview (images w)"
proof -
  have keep: "image_file (outcome_update e s p u r) = image_file r \<and>
              preview (outcome_update e s p u r) = preview r" for p u r
    by (simp add: outcome_update_def mark_processing_def mark_error_def mark_completed_def
        Let_def split: option.splits)
  have one: "map image_file (images (processImage e s p w')) = map image_file (images w') \<and>
             map preview (images (processImage e s p w')) = map preview (images w')" for p w'
    by (simp add: images_processImage update_record_def keep)
  have all: "map image_file (images (fold (processImage e s) ps w')) = map image_file (images w') \<and>
             map preview (images (fold (processImage e s) ps w')) = map preview (images w')" for ps w'
    by (induction ps arbitrary: w') (simp_all add: one)
  show ?thesis
    by (simp add: images_processAll fold_processImage_ids all)
qed

lemma restarted_append:
  assumes "restarted h i"
  shows "restarted (h @ x) i"
proof (cases "\<forall>y \<in> set h. y \<noteq> (i, Failed)")
  case True
  then have "dropWhile (\<lambda>y. y \<noteq> (i, Failed)) h = []"
    by simp
  with assms show ?thesis
    by (simp add: restarted_def)
next
  case False
  then have "(i, Failed) \<in> set h"
    by simp
  then have "dropWhile (\<lambda>y. y \<noteq> (i, Failed)) (h @ x) =
             dropWhile (\<lambda>y. y \<noteq> (i, Failed)) h @ x"
    by (rule dropWhile_append1) simp
  with assms show ?thesis
    by (simp add: restarted_def)
qed

lemma restarted_after_failure:
  "(i, Failed) \<in> set h \<Longrightarrow> (i, Started) \<in> set x \<Longrightarrow> restarted (h @ x) i"
  by (auto simp: restarted_def dropWhile_append)

lemma record_ok_append: "record_ok h r \<Longrightarrow> record_ok (h @ x) r"
  by (auto simp: record_ok_def restarted_append)

lemma record_ok_rename: "record_ok h r \<Longrightarrow> record_ok h (r\<lparr>optimizedName := x\<rparr>)"
  by (simp add: record_ok_def)

lemma progress_ok: "record_ok h r \<Longrightarrow> record_ok h (r\<lparr>progress := x\<rparr>)"
  by (simp add: record_ok_def)

lemma store_progress_ok: "record_ok h (store_progress reports r) = record_ok h r"
  by (simp add: record_ok_def)

lemma mark_processing_ok:
  "record_ok h r \<Longrightarrow> status r \<noteq> Completed \<Longrightarrow>
   record_ok (h @ [(image_id r, Started)]) (mark_processing r)"
  by (auto simp: record_ok_def mark_processing_def restarted_after_failure)

lemma mark_error_ok:
  "record_ok h r \<Longrightarrow> status r \<noteq> Completed \<Longrightarrow>
   record_ok (h @ [(image_id r, Failed)]) (mark_error r)"
  by (auto simp: record_ok_def mark_error_def)

lemma mark_completed_ok:
  "record_ok h r \<Longrightarrow> status r \<noteq> Error \<Longrightarrow> record_ok (h @ x) (mark_completed n u f r)"
  by (auto simp: record_ok_def mark_completed_def restarted_append)

lemma outcome_update_ok:
  assumes "record_ok h r" and "status r \<noteq> Completed" and "image_id r = image_id p"
  shows "record_ok (h @ image_trace e s p) (outcome_update e s p url r)"
proof -
  let ?reports = "map (\<lambda>q. (image_id p, Progressed q)) (fst (engine_run e s p))"
  let ?h = "(h @ [(image_id r, Started)]) @ ?reports"
  let ?r = "store_progress (fst (engine_run e s p)) (mark_processing r)"
  from assms(1,2) have "record_ok (h @ [(image_id r, Started)]) (mark_processing r)"
    by (rule mark_processing_ok)
  then have "record_ok ?h (mark_processing r)"
    by (rule record_ok_append)
  then have ok: "record_ok ?h ?r"
    by (simp only: store_progress_ok)
  have st: "status ?r = Processing"
    by (simp add: mark_processing_def)
  have ident: "image_id ?r = image_id p"
    by (simp add: assms(3))
  show ?thesis
  proof (cases "snd (engine_run e s p)")
    case None
    from ok st have "record_ok (?h @ [(image_id ?r, Failed)]) (mark_error ?r)"
      by (intro mark_error_ok) simp_all
    with None show ?thesis
      by (simp add: outcome_update_def image_trace_def Let_def assms(3))
  next
    case (Some c)
    from ok st have "record_ok (?h @ [(image_id p, Finished)])
        (mark_completed (file_size c) url (default_file_name s p) ?r)"
      by (intro mark_completed_ok) simp_all
    with Some show ?thesis
      by (simp add: outcome_update_def image_trace_def Let_def assms(3))
  qed
qed

lemma list_all_update_record_step:
  "list_all P b \<Longrightarrow> list_all (\<lambda>r. image_id r = i \<longrightarrow> Q r) b \<Longrightarrow>
   (\<And>r. P r \<Longrightarrow> image_id r = i \<Longrightarrow> Q r \<Longrightarrow> P' (f r)) \<Longrightarrow> (\<And>r. P r \<Longrightarrow> P' r) \<Longrightarrow>
   list_all P' (update_record i f b)"
  unfolding update_record_def by (induction b) simp_all

lemma fold_processImage_pred:
  assumes step: "\<And>p u r h. P h r \<Longrightarrow> Q r \<Longrightarrow> image_id r = image_id p \<Longrightarrow>
                   P (h @ image_trace e s p) (outcome_update e s p u r)"
    and mono: "\<And>h x r. P h r \<Longrightarrow> P (h @ x) r"
  shows "distinct (map image_id ps) \<Longrightarrow> list_all (P (history w)) (images w) \<Longrightarrow>
         (\<forall>r \<in> set (images w). image_id r \<in> image_id ` set ps \<longrightarrow> Q r) \<Longrightarrow>
         list_all (P (history (fold (processImage e s) ps w)))
           (images (fold (processImage e s) ps w))"
proof (induction ps arbitrary: w)
  case Nil
  then show ?case by simp
next
  case (Cons p ps)
  let ?w1 = "processImage e s p w"
  from Cons.prems(3) have "list_all (\<lambda>r. image_id r = image_id p \<longrightarrow> Q r) (images w)"
    by (simp add: list_all_iff)
  with Cons.prems(2)
  have "list_all (P (history w @ image_trace e s p))
          (update_record (image_id p) (outcome_update e s p (object_url e (url_count w)))
             (images w))"
    by (rule list_all_update_record_step [where Q = Q]) (simp_all add: step mono)
  then have ok1: "list_all (P (history ?w1)) (images ?w1)"
    by (simp only: images_processImage history_processImage)
  have open1: "\<forall>r \<in> set (images ?w1). image_id r \<in> image_id ` set ps \<longrightarrow> Q r"
  proof (intro ballI impI)
    fix r1
    assume r1: "r1 \<in> set (images ?w1)" and m: "image_id r1 \<in> image_id ` set ps"
    from r1 obtain r where r: "r \<in> set (images w)"
      and eq: "r1 = (if image_id r = image_id p
                     then outcome_update e s p (object_url e (url_count w)) r else r)"
      by (auto simp: images_processImage update_record_def)
    have same: "image_id r1 = image_id r" using eq by simp
    with m Cons.prems(1) have "image_id r \<noteq> image_id p" by auto
    with eq have "r1 = r" by simp
    moreover from same m have "image_id r \<in> image_id ` set (p # ps)" by simp
    ultimately show "Q r1" using Cons.prems(3) r by blast
  qed
  from Cons.prems(1) have "distinct (map image_id ps)" by simp
  from Cons.IH [OF this ok1 open1] show ?case by simp
qed

lemma history_processAll:
  "history (processAll e s w) =
   history (fold (processImage e s) (filter (\<lambda>i. status i \<noteq> Completed) (images w))
              (w\<lparr>isProcessing := True\<rparr>))"
  by (simp add: processAll_def Let_def)

lemma pending_open:
  assumes "distinct (map image_id b)" and "\<And>r. r \<in> set b \<Longrightarrow> Q0 r \<Longrightarrow> Q r"
  shows "\<forall>r \<in> set b. image_id r \<in> image_id ` set (filter Q0 b) \<longrightarrow> Q r"
proof (intro ballI impI)
  fix r
  assume r: "r \<in> set b" and m: "image_id r \<in> image_id ` set (filter Q0 b)"
  from m obtain p where p: "p \<in> set (filter Q0 b)" and eq: "image_id r = image_id p"
    by blast
  from p have p1: "p \<in> set b" and p2: "Q0 p"
    by simp_all
  from assms(1) have "inj_on image_id (set b)"
    by (simp add: distinct_map)
  from this eq r p1 have "r = p" by (rule inj_onD)
  with p2 r show "Q r" by (simp add: assms(2))
qed

lemma processAll_ok:
  assumes "batch_ok w" and "distinct (map image_id (images w))"
  shows "batch_ok (processAll e s w)"
proof -
  let ?ps = "filter (\<lambda>i. status i \<noteq> Completed) (images w)"
  let ?w1 = "w\<lparr>isProcessing := True\<rparr>"
  have d: "distinct (map image_id ?ps)"
    using assms(2) by (simp add: distinct_map_filter)
  have ok1: "list_all (record_ok (history ?w1)) (images ?w1)"
    using assms(1) by (simp add: batch_ok_def)
  have "\<forall>r \<in> set (images w). image_id r \<in> image_id ` set ?ps \<longrightarrow> status r \<noteq> Completed"
    using assms(2) by (rule pending_open)
  then have open1:
    "\<forall>r \<in> set (images ?w1). image_id r \<in> image_id ` set ?ps \<longrightarrow> status r \<noteq> Completed"
    by simp
  have "list_all (record_ok (history (fold (processImage e s) ?ps ?w1)))
          (images (fold (processImage e s) ?ps ?w1))"
    using d ok1 open1
    by (rule fold_processImage_pred [where P = record_ok and Q = "\<lambda>r. status r \<noteq> Completed",
          rotated 2]) (simp_all add: outcome_update_ok record_ok_append)
  then show ?thesis
    by (simp only: batch_ok_def images_processAll history_processAll)
qed

lemma outcome_update_claimed:
  "claimed_invariant r \<Longrightarrow> status r \<noteq> Completed \<and> status r \<noteq> Error \<Longrightarrow>
   claimed_invariant (outcome_update e s p url r)"
  by (auto simp: claimed_invariant_def outcome_update_def Let_def mark_error_def
      mark_completed_def mark_processing_def split: option.splits)

lemma processAll_claimed:
  assumes "list_all claimed_invariant (images w)" and "list_all (\<lambda>r. status r \<noteq> Error) (images w)"
    and "distinct (map image_id (images w))"
  shows "list_all claimed_invariant (images (processAll e s w))"
proof -
  let ?ps = "filter (\<lambda>i. status i \<noteq> Completed) (images w)"
  let ?w1 = "w\<lparr>isProcessing := True\<rparr>"
  have d: "distinct (map image_id ?ps)"
    using assms(3) by (simp add: distinct_map_filter)
  have ok1: "list_all claimed_invariant (images ?w1)"
    using assms(1) by simp
  have "\<forall>r \<in> set (images w). image_id r \<in> image_id ` set ?ps \<longrightarrow>
          status r \<noteq> Completed \<and> status r \<noteq> Error"
    using assms(3)
  proof (rule pending_open)
    fix r
    assume "r \<in> set (images w)" and "status r \<noteq> Completed"
    with assms(2) show "status r \<noteq> Completed \<and> status r \<noteq> Error"
      by (simp add: list_all_iff)
  qed
  then have open1:
    "\<forall>r \<in> set (images ?w1). image_id r \<in> image_id ` set ?ps \<longrightarrow>
       status r \<noteq> Completed \<and> status r \<noteq> Error"
    by simp
  have "list_all claimed_invariant (images (fold (processImage e s) ?ps ?w1))"
    using d ok1 open1
    by (rule fold_processImage_pred [where P = "\<lambda>h. claimed_invariant"
          and Q = "\<lambda>r. status r \<noteq> Completed \<and> status r \<noteq> Error", rotated 2])
       (simp_all add: outcome_update_claimed)
  then show ?thesis
    by (simp only: images_processAll)
qed

lemma record_ok_claimed: "record_ok h r \<Longrightarrow> restarted h (image_id r) \<or> claimed_invariant r"
  by (auto simp: record_ok_def claimed_invariant_def)

lemma batch_ok_claimed:
  "batch_ok w \<Longrightarrow>
   list_all (\<lambda>r. restarted (history w) (image_id r) \<or> claimed_invariant r) (images w)"
  by (simp add: batch_ok_def list_all_iff record_ok_claimed)

lemma fresh_record_ok:
  "record_ok h \<lparr>image_id = a, image_file = f, preview = u, status = Pending, progress = 0,
     originalSize = n, optimizedSize = None, optimizedUrl = None, optimizedName = None,
     error = None, aiSuggestedName = None\<rparr>"
  by (simp add: record_ok_def)

lemma new_images_images [simp]: "images (snd (new_images e fs w)) = images w"
  by (induction fs arbitrary: w) (simp_all add: Let_def split_def)

lemma new_images_history [simp]: "history (snd (new_images e fs w)) = history w"
  by (induction fs arbitrary: w) (simp_all add: Let_def split_def)

lemma new_images_ok: "list_all (record_ok h) (fst (new_images e fs w))"
  by (induction fs arbitrary: w) (simp_all add: Let_def split_def fresh_record_ok)

lemma images_addFiles: "images (addFiles e fs w) = images w @ fst (new_images e fs w)"
  by (simp add: addFiles_def split_def Let_def)

lemma history_addFiles: "history (addFiles e fs w) = history w"
  by (simp add: addFiles_def split_def Let_def)

lemma addFiles_ok: "batch_ok w \<Longrightarrow> batch_ok (addFiles e fs w)"
  by (simp add: batch_ok_def images_addFiles history_addFiles new_images_ok)

lemma images_removeImage: "images (removeImage i w) = filter (\<lambda>img. image_id img \<noteq> i) (images w)"
  by (simp add: removeImage_def Let_def)

lemma history_removeImage: "history (removeImage i w) = history w"
  by (simp add: removeImage_def Let_def split: option.splits)

lemma removeImage_ok: "batch_ok w \<Longrightarrow> batch_ok (removeImage i w)"
  by (simp add: batch_ok_def images_removeImage history_removeImage list_all_iff)

lemma images_clearWorkspace: "images (clearWorkspace w) = []"
  by (simp add: clearWorkspace_def Let_def)

lemma images_suggestName:
  "images (suggestName e s p w) =
   (case suggested_name e p of
      None \<Rightarrow> images w
    | Some newName \<Rightarrow>
        update_record (image_id p)
          (\<lambda>img. img\<lparr>optimizedName := Some (newName @ [dot] @ name_extension s img)\<rparr>) (images w))"
  by (simp add: suggestName_def Let_def split: option.splits)

lemma history_suggestName: "history (suggestName e s p w) = history w"
  by (simp add: suggestName_def Let_def split: option.splits)

lemma list_all_update_record:
  "list_all P b \<Longrightarrow> (\<And>r. P r \<Longrightarrow> P (f r)) \<Longrightarrow> list_all P (update_record i f b)"
  unfolding update_record_def by (induction b) simp_all

lemma suggestName_ok: "batch_ok w \<Longrightarrow> batch_ok (suggestName e s p w)"
  by (simp add: batch_ok_def images_suggestName history_suggestName list_all_update_record
      record_ok_rename split: option.splits)

lemma onProgress_ok: "batch_ok w \<Longrightarrow> batch_ok (onProgress i q w)"
proof -
  assume "batch_ok w"
  then have "list_all (record_ok (history w)) (images w)"
    by (simp add: batch_ok_def)
  then have "list_all (record_ok (history w @ [(i, Progressed q)]))
               (update_record i (\<lambda>img. img\<lparr>progress := progress_value q\<rparr>) (images w))"
    by (rule list_all_update_record_step [where Q = "\<lambda>r. True"])
       (simp_all add: record_ok_append progress_ok list_all_iff)
  then show ?thesis
    by (simp add: batch_ok_def onProgress_def)
qed

lemma start_processing_ok:
  assumes "batch_ok w" and "list_all (\<lambda>r. image_id r = i \<longrightarrow> status r \<noteq> Completed) (images w)"
  shows "batch_ok (start_processing i w)"
proof -
  from assms(1) have "list_all (record_ok (history w)) (images w)"
    by (simp add: batch_ok_def)
  then have "list_all (record_ok (history w @ [(i, Started)]))
               (update_record i mark_processing (images w))"
    using assms(2)
  proof (rule list_all_update_record_step [where Q = "\<lambda>r. status r \<noteq> Completed"])
    fix r
    assume "record_ok (history w) r" and "image_id r = i" and "status r \<noteq> Completed"
    then show "record_ok (history w @ [(i, Started)]) (mark_processing r)"
      using mark_processing_ok [of "history w" r] by simp
  qed (rule record_ok_append)
  then show ?thesis
    by (simp add: batch_ok_def start_processing_def)
qed

lemma finish_error_ok:
  assumes "batch_ok w" and "list_all (\<lambda>r. image_id r = i \<longrightarrow> status r \<noteq> Completed) (images w)"
  shows "batch_ok (finish_error i w)"
proof -
  from assms(1) have "list_all (record_ok (history w)) (images w)"
    by (simp add: batch_ok_def)
  then have "list_all (record_ok (history w @ [(i, Failed)]))
               (update_record i mark_error (images w))"
    using assms(2)
  proof (rule list_all_update_record_step [where Q = "\<lambda>r. status r \<noteq> Completed"])
    fix r
    assume "record_ok (history w) r" and "image_id r = i" and "status r \<noteq> Completed"
    then show "record_ok (history w @ [(i, Failed)]) (mark_error r)"
      using mark_error_ok [of "history w" r] by simp
  qed (rule record_ok_append)
  then show ?thesis
    by (simp add: batch_ok_def finish_error_def)
qed

lemma finish_completed_ok:
  assumes "batch_ok w" and "list_all (\<lambda>r. image_id r = i \<longrightarrow> status r \<noteq> Error) (images w)"
  shows "batch_ok (finish_completed i n u f w)"
proof -
  from assms(1) have "list_all (record_ok (history w)) (images w)"
    by (simp add: batch_ok_def)
  then have "list_all (record_ok (history w @ [(i, Finished)]))
               (update_record i (mark_completed n u f) (images w))"
    using assms(2)
    by (rule list_all_update_record_step [where Q = "\<lambda>r. status r \<noteq> Error"])
       (simp_all add: mark_completed_ok record_ok_append)
  then show ?thesis
    by (simp add: batch_ok_def finish_completed_def)
qed

text \<open>
  Claim C1, as amended. \<open>batch_ok\<close> holds of the empty batch at the start, and on a batch with
  distinct identifiers of which it holds, it holds again after adding files, removing a
  record, clearing, a naming flow, a batch run and a progress update; after the transition to
  \<open>processing\<close> and after the error update when the records they address are not completed,
  and after the completed update when they are not in error, as it is in a batch run. So in
  every such batch, and in the batch after a batch run, a record that was not started again
  after a failure satisfies the invariant of the claim in full: the result is present exactly
  when the status is \<open>completed\<close>, the error exactly when the status is \<open>error\<close>, never both.
  And a batch run on a batch in which every record satisfies the invariant of the claim and
  none is in error leaves a batch in which every record satisfies it.
\<close>

theorem status_result_invariant:
  assumes "batch_ok w" and "distinct (map image_id (images w))"
  shows "batch_ok initial_world \<and>
         batch_ok (addFiles e fs w) \<and>
         batch_ok (removeImage i w) \<and>
         batch_ok (clearWorkspace w) \<and>
         batch_ok (suggestName e s p w) \<and>
         batch_ok (processAll e s w) \<and>
         batch_ok (onProgress i q w) \<and>
         (list_all (\<lambda>r. image_id r = i \<longrightarrow> status r \<noteq> Completed) (images w) \<longrightarrow>
            batch_ok (start_processing i w) \<and> batch_ok (finish_error i w)) \<and>
         (list_all (\<lambda>r. image_id r = i \<longrightarrow> status r \<noteq> Error) (images w) \<longrightarrow>
            batch_ok (finish_completed i n u f w)) \<and>
         list_all (\<lambda>r. restarted (history w) (image_id r) \<or> claimed_invariant r) (images w) \<and>
         list_all (\<lambda>r. restarted (history (processAll e s w)) (image_id r) \<or> claimed_invariant r)
           (images (processAll e s w)) \<and>
         (list_all claimed_invariant (images w) \<and> list_all (\<lambda>r. status r \<noteq> Error) (images w) \<longrightarrow>
            list_all claimed_invariant (images (processAll e s w)))"
proof -
  have a: "batch_ok initial_world"
    by (simp add: batch_ok_def initial_world_def)
  have b: "batch_ok (addFiles e fs w)"
    using assms(1) by (rule addFiles_ok)
  have c: "batch_ok (removeImage i w)"
    using assms(1) by (rule removeImage_ok)
  have d: "batch_ok (clearWorkspace w)"
    by (simp add: batch_ok_def images_clearWorkspace)
  have e: "batch_ok (suggestName e s p w)"
    using assms(1) by (rule suggestName_ok)
  have f: "batch_ok (processAll e s w)"
    using assms by (rule processAll_ok)
  have g: "batch_ok (onProgress i q w)"
    using assms(1) by (rule onProgress_ok)
  have h: "list_all (\<lambda>r. image_id r = i \<longrightarrow> status r \<noteq> Completed) (images w) \<longrightarrow>
      batch_ok (start_processing i w) \<and> batch_ok (finish_error i w)"
    using assms(1) by (simp add: start_processing_ok finish_error_ok)
  have k: "list_all (\<lambda>r. image_id r = i \<longrightarrow> status r \<noteq> Error) (images w) \<longrightarrow>
      batch_ok (finish_completed i n u f w)"
    using assms(1) by (simp add: finish_completed_ok)
  have l: "list_all (\<lambda>r. restarted (history w) (image_id r) \<or> claimed_invariant r) (images w)"
    using assms(1) by (rule batch_ok_claimed)
  have m: "list_all (\<lambda>r. restarted (history (processAll e s w)) (image_id r) \<or>
                         claimed_invariant r) (images (processAll e s w))"
    using f by (rule batch_ok_claimed)
  have n: "list_all claimed_invariant (images w) \<and>
      list_all (\<lambda>r. status r \<noteq> Error) (images w) \<longrightarrow>
      list_all claimed_invariant (images (processAll e s w))"
    using assms(2) by (simp add: processAll_claimed)
  from a b c d e f g h k l m n show ?thesis
    by (intro conjI)
qed

lemma url_count_processImage:
  "url_count (processImage e s p w) =
   (if snd (engine_run e s p) = None then url_count w else Suc (url_count w))"
  by (cases "snd (engine_run e s p)")
     (simp_all add: processImage_def Let_def split_def start_processing_def
        finish_error_def finish_completed_def)

lemma url_count_addFiles_one:
  "url_count (addFiles e [f] w) = Suc (url_count w)"
  by (simp add: addFiles_def Let_def split_def)

lemma one_image_world_images:
  "images one_image_world = [pending_record (js ''id0'') sample_png (js ''blob:0'')]"
  by (simp add: one_image_world_def addFiles_def initial_world_def sample_env_def Let_def
      createObjectURL_def pending_record_def split_def js_def)

lemma sample_engine_avif:
  "engine_run sample_env (sample_settings Avif) r = ([50], None)"
  by (simp add: engine_run_def sample_env_def compression_options_def sample_settings_def js_def)

lemma sample_resize_none:
  "resizeImageToFit sample_env sample_png (Num 2560) (Num 1440) = sample_png"
  by (simp add: resizeImageToFit_def sample_env_def sample_png_def starts_with_def js_def
      scale_factor_def fl_quotient_2560_1600 fl_quotient_1440_1200)

lemma sample_engine_webp:
  "image_file r = sample_png \<Longrightarrow>
   engine_run sample_env (sample_settings Webp) r =
     ([0, 50, 100],
      Some \<lparr>file_name = js ''Beach.PNG'', file_type = js ''image/webp'', lastModified = 0,
            file_bytes = [1]\<rparr>)"
  by (simp add: engine_run_def sample_settings_def sample_resize_none)
     (simp add: sample_env_def compression_options_def sample_png_def js_def)

lemma sample_object_url: "object_url sample_env n = js ''blob:'' @ [48 + n]"
  by (simp add: sample_env_def)

lemma url_count_one_image_world: "url_count one_image_world = 1"
  by (simp add: one_image_world_def url_count_addFiles_one initial_world_def)

lemma failed_world_images:
  "images failed_world =
     [(pending_record (js ''id0'') sample_png (js ''blob:0''))
        \<lparr>status := Error, progress := 105 / 2, error := Some (js ''Process failed'')\<rparr>]"
  by (simp add: failed_world_def images_processAll one_image_world_images
      images_processImage update_record_def outcome_update_def sample_engine_avif
      store_progress_def mark_error_def mark_processing_def progress_value_50
      pending_record_def)

lemma url_count_failed_world: "url_count failed_world = 1"
  by (simp add: failed_world_def processAll_def Let_def one_image_world_images
      url_count_processImage sample_engine_avif url_count_one_image_world pending_record_def)

text \<open>
  Claim C1 as it stands fails. One file is added; a run to AVIF fails, a second run to WebP
  succeeds: the record is completed and has its result, and still has the error of the first
  run.
\<close>

theorem error_survives_reprocessing:
  "map status (images retried_world) = [Completed] \<and>
   map error (images retried_world) = [Some (js ''Process failed'')] \<and>
   map optimizedUrl (images retried_world) = [Some (js ''blob:1'')]"
  by (simp add: retried_world_def images_processAll failed_world_images
      images_processImage update_record_def outcome_update_def sample_engine_webp
      mark_completed_def mark_processing_def pending_record_def Let_def
      url_count_failed_world sample_object_url js_def)

lemma history_one_image_world: "history one_image_world = []"
  by (simp add: one_image_world_def history_addFiles initial_world_def)

lemma history_failed_world:
  "history failed_world =
     [(js ''id0'', Started), (js ''id0'', Progressed 50), (js ''id0'', Failed)]"
  by (simp add: failed_world_def history_processAll fold_processImage_history
      history_one_image_world one_image_world_images image_trace_def sample_engine_avif
      history_processImage pending_record_def)

lemma history_retried_world:
  "history retried_world =
     [(js ''id0'', Started), (js ''id0'', Progressed 50), (js ''id0'', Failed),
      (js ''id0'', Started), (js ''id0'', Progressed 0), (js ''id0'', Progressed 50),
      (js ''id0'', Progressed 100), (js ''id0'', Finished)]"
  by (simp add: retried_world_def history_processAll fold_processImage_history
      history_failed_world failed_world_images image_trace_def sample_engine_webp
      history_processImage pending_record_def)

text \<open>
  Claim C1 as amended, at the batch of one file: after the transition to \<open>processing\<close>, after
  a removal, and after the failing run, where the record still satisfies the invariant of the
  claim; and at that batch after the second run, where the record was started again after
  its failure.
\<close>

theorem status_result_invariant_witness:
  "batch_ok one_image_world \<and> distinct (map image_id (images one_image_world)) \<and>
   list_all (\<lambda>r. image_id r = js ''id0'' \<longrightarrow> status r \<noteq> Completed) (images one_image_world) \<and>
   list_all (\<lambda>r. image_id r = js ''id0'' \<longrightarrow> status r \<noteq> Error) (images one_image_world) \<and>
   list_all claimed_invariant (images one_image_world) \<and>
   list_all (\<lambda>r. status r \<noteq> Error) (images one_image_world) \<and>
   batch_ok (start_processing (js ''id0'') one_image_world) \<and>
   batch_ok (removeImage (js ''id0'') one_image_world) \<and>
   batch_ok failed_world \<and> list_all claimed_invariant (images failed_world) \<and>
   distinct (map image_id (images failed_world)) \<and>
   batch_ok retried_world \<and> restarted (history retried_world) (js ''id0'')"
proof -
  have ok: "batch_ok one_image_world"
    by (simp add: batch_ok_def one_image_world_images pending_record_def record_ok_def)
  have d: "distinct (map image_id (images one_image_world))"
    by (simp add: one_image_world_images)
  have free: "list_all (\<lambda>r. image_id r = js ''id0'' \<longrightarrow> status r \<noteq> Completed)
                (images one_image_world)"
    "list_all (\<lambda>r. image_id r = js ''id0'' \<longrightarrow> status r \<noteq> Error) (images one_image_world)"
    "list_all (\<lambda>r. status r \<noteq> Error) (images one_image_world)"
    by (simp_all add: one_image_world_images pending_record_def)
  have strict: "list_all claimed_invariant (images one_image_world)"
    by (simp add: one_image_world_images pending_record_def claimed_invariant_def)
  note first = status_result_invariant [OF ok d, of sample_env _ "js ''id0''"
      "sample_settings Avif"]
  from first have ok2: "batch_ok failed_world"
    by (simp only: failed_world_def)
  from first free strict have strict2: "list_all claimed_invariant (images failed_world)"
    by (simp only: failed_world_def)
  have d2: "distinct (map image_id (images failed_world))"
    by (simp add: failed_world_images)
  from status_result_invariant [OF ok2 d2, of sample_env _ _ "sample_settings Webp"]
  have ok3: "batch_ok retried_world"
    by (simp only: retried_world_def)
  have again: "restarted (history retried_world) (js ''id0'')"
    by (simp add: history_retried_world restarted_def)
  from first free have "batch_ok (start_processing (js ''id0'') one_image_world)"
    "batch_ok (removeImage (js ''id0'') one_image_world)"
    by blast+
  with ok d free strict ok2 strict2 d2 ok3 again show ?thesis
    by simp
qed

section \<open>The progress callback\<close>

lemma list_all_updated:
  "(\<And>r. image_id r = i \<Longrightarrow> Q (f r)) \<Longrightarrow> (\<And>r. image_id (f r) = image_id r) \<Longrightarrow>
   list_all (\<lambda>img. image_id img = i \<longrightarrow> Q img) (update_record i f b)"
  unfolding update_record_def by (induction b) auto

text \<open>
  Claim C3, as amended. For a report \<open>p\<close> of the engine the callback stores the double
  \<open>10 + (p * 0.85)\<close> in the record of the image: the literal, the product and the sum are
  rounded to doubles in turn, and the result is not rounded to an integer. The stored value
  does not decrease when \<open>p\<close> grows from 0. For \<open>p\<close> from 0 to 100 it is a number from 10 to 95,
  10 at 0 and 95 at 100; for \<open>p\<close> from 0 to 1 it stays between 10 and 10.85.
\<close>

theorem progress_callback_stores:
  "list_all (\<lambda>img. image_id img = i \<longrightarrow> progress img = fl (10 + fl (p * fl (85 / 100))))
     (images (onProgress i p w)) \<and>
   (0 \<le> p \<and> p \<le> q \<longrightarrow> progress_value p \<le> progress_value q) \<and>
   (0 \<le> p \<and> p \<le> 100 \<longrightarrow> 10 \<le> progress_value p \<and> progress_value p \<le> 95) \<and>
   progress_value 0 = 10 \<and> progress_value 100 = 95 \<and>
   (0 \<le> p \<and> p \<le> 1 \<longrightarrow> 10 \<le> progress_value p \<and> progress_value p \<le> 10.85)"
proof -
  have "list_all (\<lambda>img. image_id img = i \<longrightarrow> progress img = fl (10 + fl (p * fl (85 / 100))))
          (images (onProgress i p w))"
    by (simp add: list_all_updated progress_value_def)
  moreover have "0 \<le> p \<and> p \<le> q \<longrightarrow> progress_value p \<le> progress_value q"
    by (simp add: progress_value_mono)
  moreover have "0 \<le> p \<and> p \<le> 100 \<longrightarrow> 10 \<le> progress_value p \<and> progress_value p \<le> 95"
    using progress_value_mono [of 0 p] progress_value_mono [of p 100]
    by (simp add: progress_value_0 progress_value_100)
  moreover have "0 \<le> p \<and> p \<le> 1 \<longrightarrow> 10 \<le> progress_value p \<and> progress_value p \<le> 10.85"
  proof -
    have "progress_value 1 \<le> 10.85"
      by (simp add: progress_value_1)
    with progress_value_mono [of 0 p] progress_value_mono [of p 1] show ?thesis
      by (auto simp: progress_value_0)
  qed
  ultimately show ?thesis
    using progress_value_0 progress_value_100 by blast
qed

text \<open>
  Claim C3 as amended, at the report 99: the record holds 6625217264327065 / 2 ^ 46, the
  double that prints as 94.14999999999999.
\<close>

theorem progress_callback_stores_witness:
  "(0::real) \<le> 99 \<and> (99::real) \<le> 100 \<and> progress_value 99 \<le> progress_value 100 \<and>
   10 \<le> progress_value 99 \<and> progress_value 99 \<le> 95 \<and>
   map progress (images (onProgress (js ''id0'') 99 one_image_world)) =
     [6625217264327065 / 70368744177664]"
proof -
  have "map progress (images (onProgress (js ''id0'') 99 one_image_world)) =
          [6625217264327065 / 70368744177664]"
    using progress_callback_stores [of "js ''id0''" 99 one_image_world 100]
    by (simp add: one_image_world_images update_record_def pending_record_def
        fl_literal_0_85 fl_product_99 fl_sum_99)
  with progress_callback_stores [of "js ''id0''" 99 one_image_world 100]
  show ?thesis by simp
qed

text \<open>
  Claim C3 as it stands fails: at the report 1 the record holds the double nearest to 10.85,
  which is neither 95 nor an integer.
\<close>

theorem progress_at_one_is_not_95:
  "map progress (images (onProgress (js ''id0'') 1 one_image_world)) =
     [6108006994621235 / 562949953421312] \<and>
   (6108006994621235 / 562949953421312 :: real) \<noteq> 95 \<and>
   (6108006994621235 / 562949953421312 :: real) \<notin> \<int>"
proof -
  have "frac (6108006994621235 / 562949953421312 :: real) \<noteq> 0"
    by (simp add: frac_def)
  then have "(6108006994621235 / 562949953421312 :: real) \<notin> \<int>"
    by (simp add: frac_eq_0_iff)
  then show ?thesis
    by (simp add: one_image_world_images update_record_def pending_record_def progress_value_1)
qed

section \<open>Resizing\<close>

lemma scale_factor_positive_dims:
  "0 < width \<Longrightarrow> 0 < height \<Longrightarrow>
   scale_factor bw bh width height = min (fl (bw / real width)) (min (fl (bh / real height)) 1)"
  by (simp add: scale_factor_def Let_def)

lemma target_size_positive: "1 \<le> target_size n scale"
  by (simp add: target_size_def)

lemma target_size_round:
  "target_size n scale = nat (max 1 \<lfloor>fl (real n * scale) + 1 / 2\<rfloor>)"
  by (simp add: target_size_def js_round_def)

text \<open>
  Claim C8, as amended. For positive finite bounds and an image file that decodes to a bitmap
  of positive dimensions, with \<open>scale = min(maxWidth / width, maxHeight / height, 1)\<close> and
  every quotient and product rounded to a double: when the scale is at least 1 the file is
  returned as it is; both target dimensions, \<open>round(width * scale)\<close> and
  \<open>round(height * scale)\<close> but at least 1, are positive; and when the scale is below 1 the
  result is the canvas of these dimensions encoded for the media type of the input, under the
  name and date of the input, with the media type that the encoder reports, or that of the
  input when it reports none; the input is returned when there is no drawing context or the
  encoder yields nothing.
\<close>

theorem resize_contract:
  assumes "0 < bw" and "0 < bh"
    and "starts_with (js ''image/'') (file_type f)"
    and "createImageBitmap e f = Some (width, height)"
    and "0 < width" and "0 < height"
  shows "(let scale = min (fl (bw / real width)) (min (fl (bh / real height)) 1);
              tw = nat (max 1 \<lfloor>fl (real width * scale) + 1 / 2\<rfloor>);
              th = nat (max 1 \<lfloor>fl (real height * scale) + 1 / 2\<rfloor>)
          in (1 \<le> scale \<longrightarrow> resizeImageToFit e f (Num bw) (Num bh) = f) \<and>
             1 \<le> tw \<and> 1 \<le> th \<and>
             (scale < 1 \<longrightarrow>
                resizeImageToFit e f (Num bw) (Num bh) =
                  (if getContext2d e tw th
                   then (case toBlob e f tw th (file_type f) None of
                           None \<Rightarrow> f
                         | Some blob \<Rightarrow>
                             \<lparr>file_name = file_name f,
                              file_type = (if blob_type blob = [] then file_type f
                                           else blob_type blob),
                              lastModified = lastModified f,
                              file_bytes = blob_bytes blob\<rparr>)
                   else f)))"
proof -
  define scale where "scale = min (fl (bw / real width)) (min (fl (bh / real height)) 1)"
  have sf: "scale_factor bw bh width height = scale"
    unfolding scale_def using assms(5,6) by (rule scale_factor_positive_dims)
  have keep: "1 \<le> scale \<Longrightarrow> resizeImageToFit e f (Num bw) (Num bh) = f"
    using assms(1-4) by (simp add: resizeImageToFit_def sf Let_def)
  have shrink: "scale < 1 \<Longrightarrow>
      resizeImageToFit e f (Num bw) (Num bh) =
        (if getContext2d e (target_size width scale) (target_size height scale)
         then (case toBlob e f (target_size width scale) (target_size height scale)
                      (file_type f) None of
                 None \<Rightarrow> f
               | Some blob \<Rightarrow>
                   \<lparr>file_name = file_name f,
                    file_type = (if blob_type blob = [] then file_type f else blob_type blob),
                    lastModified = lastModified f,
                    file_bytes = blob_bytes blob\<rparr>)
         else f)"
    using assms(1-4) by (simp add: resizeImageToFit_def sf Let_def split: option.splits)
  show ?thesis
    unfolding Let_def target_size_round [symmetric] scale_def [symmetric]
    using keep shrink target_size_positive by blast
qed

text \<open>
  Claim C8 as amended, at the sample PNG of 1600 by 1200 and the bounds 800 by 600, and at a
  file of 11 by 2112 under the bounds 2560 by 1440: the product of 11 and the scale is the
  double below 7.5, and the width comes out as 7.
\<close>

theorem resize_contract_witness:
  "(0::real) < 800 \<and> (0::real) < 600 \<and>
   starts_with (js ''image/'') (file_type sample_png) \<and>
   createImageBitmap sample_env sample_png = Some (1600, 1200) \<and>
   (0::nat) < 1600 \<and> (0::nat) < 1200 \<and>
   resizeImageToFit sample_env sample_png (Num 800) (Num 600) =
     \<lparr>file_name = js ''Beach.PNG'', file_type = js ''image/png'', lastModified = 1,
      file_bytes = [800, 600]\<rparr> \<and>
   starts_with (js ''image/'') (file_type sample_strip) \<and>
   createImageBitmap sample_env sample_strip = Some (11, 2112) \<and>
   resizeImageToFit sample_env sample_strip (Num 2560) (Num 1440) =
     \<lparr>file_name = js ''strip.png'', file_type = js ''image/png'', lastModified = 3,
      file_bytes = [7, 1440]\<rparr>"
proof -
  have a: "starts_with (js ''image/'') (file_type sample_png)"
    by (simp add: starts_with_def sample_png_def js_def)
  have b: "createImageBitmap sample_env sample_png = Some (1600, 1200)"
    by (simp add: sample_env_def sample_png_def)
  have c: "starts_with (js ''image/'') (file_type sample_strip)"
    by (simp add: starts_with_def sample_strip_def js_def)
  have d: "createImageBitmap sample_env sample_strip = Some (11, 2112)"
    by (simp add: sample_env_def sample_strip_def)
  have "resizeImageToFit sample_env sample_png (Num 800) (Num 600) =
     \<lparr>file_name = js ''Beach.PNG'', file_type = js ''image/png'', lastModified = 1,
      file_bytes = [800, 600]\<rparr>"
    using resize_contract [OF _ _ a b, of 800 600]
    by (simp add: sample_env_def sample_png_def js_def fl_half fl_numeral)
  moreover have "resizeImageToFit sample_env sample_strip (Num 2560) (Num 1440) =
     \<lparr>file_name = js ''strip.png'', file_type = js ''image/png'', lastModified = 3,
      file_bytes = [7, 1440]\<rparr>"
    using resize_contract [OF _ _ c d, of 2560 1440]
    by (simp add: sample_env_def sample_strip_def js_def fl_quotient_2560_11
        fl_quotient_1440_2112 fl_product_11 fl_product_2112)
  ultimately show ?thesis using a b c d by simp
qed

text \<open>
  Claim C8 as it stands fails: the sample GIF is resized to 800 by 600, and the result is a
  PNG, as the encoder reports.
\<close>

theorem resize_changes_media_type:
  "file_type sample_gif = js ''image/gif'' \<and>
   resizeImageToFit sample_env sample_gif (Num 800) (Num 600) =
     \<lparr>file_name = js ''anim.gif'', file_type = js ''image/png'', lastModified = 2,
      file_bytes = [800, 600]\<rparr>"
  by (simp add: resizeImageToFit_def sample_env_def sample_gif_def starts_with_def js_def
      scale_factor_def target_size_def js_round_def fl_half fl_numeral)

text \<open>
  Resizing is the identity when a bound is not finite or not positive, when the media type
  is no image type, when the file does not decode, and when the bitmap already fits the
  bounds: the image is never scaled up.
\<close>

theorem resize_noop:
  "(\<not> is_finite mw \<or> \<not> is_finite mh \<longrightarrow> resizeImageToFit e f mw mh = f) \<and>
   (bw \<le> 0 \<or> bh \<le> 0 \<longrightarrow> resizeImageToFit e f (Num bw) (Num bh) = f) \<and>
   (\<not> starts_with (js ''image/'') (file_type f) \<longrightarrow> resizeImageToFit e f mw mh = f) \<and>
   (createImageBitmap e f = None \<longrightarrow> resizeImageToFit e f mw mh = f) \<and>
   (createImageBitmap e f = Some (width, height) \<and> 0 < width \<and> 0 < height \<and>
    real width \<le> bw \<and> real height \<le> bh \<longrightarrow> resizeImageToFit e f (Num bw) (Num bh) = f)"
proof -
  have "\<not> is_finite mw \<or> \<not> is_finite mh \<Longrightarrow> resizeImageToFit e f mw mh = f"
    by (cases mw; cases mh) (simp_all add: resizeImageToFit_def)
  moreover have "bw \<le> 0 \<or> bh \<le> 0 \<Longrightarrow> resizeImageToFit e f (Num bw) (Num bh) = f"
    by (auto simp: resizeImageToFit_def)
  moreover have "\<not> starts_with (js ''image/'') (file_type f) \<Longrightarrow> resizeImageToFit e f mw mh = f"
    by (cases mw; cases mh) (simp_all add: resizeImageToFit_def)
  moreover have "createImageBitmap e f = None \<Longrightarrow> resizeImageToFit e f mw mh = f"
    by (cases mw; cases mh) (simp_all add: resizeImageToFit_def)
  moreover have "createImageBitmap e f = Some (width, height) \<and> 0 < width \<and> 0 < height \<and>
    real width \<le> bw \<and> real height \<le> bh \<Longrightarrow> resizeImageToFit e f (Num bw) (Num bh) = f"
  proof -
    assume a: "createImageBitmap e f = Some (width, height) \<and> 0 < width \<and> 0 < height \<and>
      real width \<le> bw \<and> real height \<le> bh"
    then have "1 \<le> bw / real width" "1 \<le> bh / real height" by simp_all
    then have "1 \<le> fl (bw / real width)" "1 \<le> fl (bh / real height)"
      by (simp_all add: fl_ge_one)
    then have "1 \<le> scale_factor bw bh width height"
      using a by (simp add: scale_factor_positive_dims)
    with a show ?thesis
      by (simp add: resizeImageToFit_def Let_def)
  qed
  ultimately show ?thesis by blast
qed

text \<open>
  The sample PNG of 1600 by 1200 under unbounded settings and under the default bounds.
\<close>

theorem resize_noop_witness:
  "\<not> is_finite PosInfinity \<and>
   resizeImageToFit sample_env sample_png PosInfinity PosInfinity = sample_png \<and>
   createImageBitmap sample_env sample_png = Some (1600, 1200) \<and>
   real 1600 \<le> 2560 \<and> real 1200 \<le> 1440 \<and>
   resizeImageToFit sample_env sample_png (Num 2560) (Num 1440) = sample_png"
proof -
  have b: "createImageBitmap sample_env sample_png = Some (1600, 1200)"
    by (simp add: sample_env_def sample_png_def)
  from resize_noop [of PosInfinity PosInfinity sample_env sample_png]
  have "resizeImageToFit sample_env sample_png PosInfinity PosInfinity = sample_png"
    by simp
  moreover from resize_noop [of _ _ sample_env sample_png 2560 1440 1600 1200] b
  have "resizeImageToFit sample_env sample_png (Num 2560) (Num 1440) = sample_png"
    by simp
  ultimately show ?thesis using b by simp
qed

section \<open>The thumbnail\<close>







section \<open>The naming flow\<close>

lemma suggestName_without_name:
  "suggested_name e p = None \<Longrightarrow> suggestName e s p w = w\<lparr>isRenaming := None\<rparr>"
  by (simp add: suggestName_def Let_def)

lemma suggestName_only_renames:
  "list_all2 only_renamed (images w) (images (suggestName e s p w))"
proof (cases "suggested_name e p")
  case None
  then show ?thesis
    by (simp add: images_suggestName only_renamed_def list_all2_same)
next
  case (Some n)
  have "list_all2 only_renamed b
          (update_record i (\<lambda>img. img\<lparr>optimizedName := Some (g img)\<rparr>) b)" for b i g
    unfolding update_record_def by (induction b) (simp_all add: only_renamed_def)
  with Some show ?thesis
    by (simp add: images_suggestName)
qed

text \<open>
  Claim C7, as amended. When the thumbnail cannot be built, or the request is rejected, or
  the response has a status outside 200 to 299, \<open>suggestName\<close> changes nothing but the flag
  \<open>isRenaming\<close>, which it clears: no name, no status, no error is touched. And whatever the
  outcome, the records after the flow differ from those before in \<open>optimizedName\<close> at most.
\<close>

theorem naming_failure_is_silent:
  "(createAiThumbnailPayload e (image_file p) = Inl err \<longrightarrow>
      suggestName e s p w = w\<lparr>isRenaming := None\<rparr>) \<and>
   (createAiThumbnailPayload e (image_file p) = Inr payload \<and>
    suggest_name_api e payload = Rejected \<longrightarrow>
      suggestName e s p w = w\<lparr>isRenaming := None\<rparr>) \<and>
   (createAiThumbnailPayload e (image_file p) = Inr payload \<and>
    suggest_name_api e payload = Response code body \<and> (code < 200 \<or> 299 < code) \<longrightarrow>
      suggestName e s p w = w\<lparr>isRenaming := None\<rparr>) \<and>
   list_all2 only_renamed (images w) (images (suggestName e s p w))"
proof -
  have "createAiThumbnailPayload e (image_file p) = Inl err \<Longrightarrow> suggested_name e p = None"
    by (simp add: suggested_name_def)
  moreover have "createAiThumbnailPayload e (image_file p) = Inr payload \<Longrightarrow>
      suggest_name_api e payload = Rejected \<Longrightarrow> suggested_name e p = None"
    by (simp add: suggested_name_def)
  moreover have "createAiThumbnailPayload e (image_file p) = Inr payload \<Longrightarrow>
      suggest_name_api e payload = Response code body \<Longrightarrow> code < 200 \<or> 299 < code \<Longrightarrow>
      suggested_name e p = None"
    by (auto simp: suggested_name_def response_ok_def)
  ultimately show ?thesis
    using suggestName_without_name suggestName_only_renames by blast
qed

lemma sample_thumbnail:
  "createImageBitmap e = createImageBitmap sample_env \<Longrightarrow>
   getContext2d e = getContext2d sample_env \<Longrightarrow>
   toBlob e = toBlob sample_env \<Longrightarrow>
   readAsDataURL e = readAsDataURL sample_env \<Longrightarrow>
   createAiThumbnailPayload e sample_png = Inr sample_payload"
  by (simp add: createAiThumbnailPayload_def resizeImageToFit_def encode_thumbnail_def
      fileToDataUrl_def base64_part_def sample_env_def sample_png_def sample_payload_def
      starts_with_def scale_factor_def target_size_def js_round_def Let_def js_def comma_def
      fl_quotient_512_1600 fl_quotient_512_1200 fl_product_1600 fl_product_1200)

text \<open>
  Claim C7 as amended, at a response 500.
\<close>

theorem naming_failure_is_silent_witness:
  "createAiThumbnailPayload sample_env
     (image_file (pending_record (js ''id0'') sample_png (js ''blob:0''))) = Inr sample_payload \<and>
   suggest_name_api sample_env sample_payload = Response 500 Unparseable \<and>
   suggestName sample_env (sample_settings Webp)
     (pending_record (js ''id0'') sample_png (js ''blob:0'')) one_image_world =
     one_image_world\<lparr>isRenaming := None\<rparr>"
proof -
  let ?p = "pending_record (js ''id0'') sample_png (js ''blob:0'')"
  have a: "createAiThumbnailPayload sample_env (image_file ?p) = Inr sample_payload"
    by (simp add: pending_record_def sample_thumbnail)
  have b: "suggest_name_api sample_env sample_payload = Response 500 Unparseable"
    by (simp add: sample_env_def)
  from naming_failure_is_silent
    [of sample_env ?p _ "sample_settings Webp" one_image_world sample_payload 500 Unparseable]
    a b
  show ?thesis by simp
qed

text \<open>
  Claim C7 as it stands fails: a response 201 with a name is not 200, and the record is
  renamed.
\<close>

theorem naming_accepts_201:
  "createAiThumbnailPayload accepting_env
     (image_file (pending_record (js ''id0'') sample_png (js ''blob:0''))) = Inr sample_payload \<and>
   suggest_name_api accepting_env sample_payload =
     Response 201 (JsonValue (NameString (js ''sunset''))) \<and>
   map optimizedName (images one_image_world) = [None] \<and>
   map optimizedName
     (images (suggestName accepting_env (sample_settings Webp)
        (pending_record (js ''id0'') sample_png (js ''blob:0'')) one_image_world)) =
     [Some (js ''sunset.webp'')]"
proof -
  let ?p = "pending_record (js ''id0'') sample_png (js ''blob:0'')"
  have a: "createAiThumbnailPayload accepting_env (image_file ?p) = Inr sample_payload"
    by (simp add: pending_record_def sample_thumbnail accepting_env_def)
  have b: "suggest_name_api accepting_env sample_payload =
             Response 201 (JsonValue (NameString (js ''sunset'')))"
    by (simp add: accepting_env_def)
  have n: "suggested_name accepting_env ?p = Some (js ''sunset'')"
    by (simp add: suggested_name_def a b response_ok_def)
       (simp add: trim_def is_space_def js_def)
  have "map optimizedName (images (suggestName accepting_env (sample_settings Webp) ?p one_image_world)) =
     [Some (js ''sunset.webp'')]"
    by (simp add: images_suggestName n one_image_world_images update_record_def)
       (simp add: pending_record_def name_extension_def sample_settings_def js_def dot_def)
  with a b show ?thesis
    by (simp add: one_image_world_images pending_record_def)
qed

section \<open>The archive\<close>

lemma add_entries_live:
  "list_all (handle_live w) imgs \<Longrightarrow>
   add_entries w imgs acc = Inr (acc @ map (archive_entry w) imgs)"
proof (induction imgs arbitrary: acc)
  case Nil
  show ?case by simp
next
  case (Cons img imgs)
  from Cons.prems obtain url blob where u: "optimizedUrl img = Some url"
    and b: "object_urls w url = Some blob"
    by (auto simp: handle_live_def split: option.splits)
  have "entry_name img = fst (archive_entry w img)"
    by (simp add: entry_name_def archive_entry_def truthy_def split: option.splits)
  with u b have "(entry_name img, blob) = archive_entry w img"
    by (simp add: archive_entry_def)
  with Cons u b show ?case by simp
qed

text \<open>
  The archive, for live handles. When no record is selected, \<open>downloadZip\<close> returns without
  a download and leaves the state as it is. When the result URL of every selected record is
  live, it returns a download whose entries are those of the selected records in the order of
  the batch: the name of the record, or \<open>image.webp\<close>, and the blob behind its URL.
\<close>

theorem archive_build:
  "(selected_for_archive w = [] \<longrightarrow> downloadZip e w = Inr (None, w)) \<and>
   (selected_for_archive w \<noteq> [] \<and> list_all (handle_live w) (selected_for_archive w) \<longrightarrow>
      (\<exists>d w'. downloadZip e w = Inr (Some d, w') \<and> images w' = images w \<and>
         download_entries d = map (archive_entry w) (selected_for_archive w)))"
  by (simp add: downloadZip_def selected_for_archive_def [symmetric] Let_def split_def
      add_entries_live)

lemmas world_defs = processAll_def processImage_def start_processing_def finish_completed_def
  finish_error_def onProgress_def setImages_def revoke_all_def revoke_record_def
  revokeObjectURL_def createObjectURL_def record_step_def update_record_def addFiles_def
  removeImage_def clearWorkspace_def initial_world_def mark_processing_def mark_completed_def
  mark_error_def progress_value_def default_file_name_def truthy_def blob_of_file_def
  file_size_def

lemma one_image_world_eval:
  "one_image_world =
     \<lparr>images = [pending_record (js ''id0'') sample_png (js ''blob:0'')],
      isProcessing = False, isRenaming = None,
      object_urls = [js ''blob:0'' \<mapsto> blob_of_file sample_png],
      url_count = 1, id_count = 1, revoked = [], history = []\<rparr>"
  by (simp add: one_image_world_def world_defs sample_object_url pending_record_def Let_def
      split_def)
     (simp add: sample_env_def js_def)

lemma done_world_urls:
  "object_urls done_world (js ''blob:1'') =
     Some \<lparr>blob_type = js ''image/webp'', blob_bytes = [1]\<rparr> \<and>
   object_urls done_world (js ''blob:0'') = None"
  unfolding done_world_def one_image_world_eval
  by (simp add: processAll_def processImage_def pending_record_def sample_engine_webp Let_def)
     (simp add: world_defs sample_object_url js_def Let_def split_def)

lemma done_world_images:
  "images done_world =
     [(pending_record (js ''id0'') sample_png (js ''blob:0''))
        \<lparr>status := Completed, progress := 100, optimizedSize := Some 1,
         optimizedUrl := Some (js ''blob:1''),
         optimizedName := Some (js ''Beach_opti.webp'')\<rparr>]"
  unfolding done_world_def
  by (simp add: images_processAll one_image_world_images images_processImage
      update_record_def outcome_update_def sample_engine_webp pending_record_def
      url_count_one_image_world sample_object_url Let_def)
     (simp add: mark_completed_def mark_processing_def store_progress_def truthy_def
      default_file_name_def sample_settings_def sample_png_def file_size_def js_def
      dot_def slash_def)

text \<open>
  The archive of the batch of one processed file.
\<close>

theorem archive_build_witness:
  "selected_for_archive done_world \<noteq> [] \<and>
   list_all (handle_live done_world) (selected_for_archive done_world) \<and>
   (\<exists>d w'. downloadZip sample_env done_world = Inr (Some d, w') \<and>
      download_entries d =
        [(js ''Beach_opti.webp'', \<lparr>blob_type = js ''image/webp'', blob_bytes = [1]\<rparr>)])"
proof -
  have sel: "selected_for_archive done_world = images done_world"
    by (simp add: selected_for_archive_def done_world_images pending_record_def truthy_def js_def)
  have live: "list_all (handle_live done_world) (selected_for_archive done_world)"
    by (simp add: sel handle_live_def done_world_images done_world_urls)
  have ne: "selected_for_archive done_world \<noteq> []"
    by (simp add: sel done_world_images)
  have entries: "map (archive_entry done_world) (selected_for_archive done_world) =
      [(js ''Beach_opti.webp'', \<lparr>blob_type = js ''image/webp'', blob_bytes = [1]\<rparr>)]"
    by (simp add: sel done_world_images archive_entry_def done_world_urls pending_record_def)
       (simp add: js_def)
  from archive_build [of done_world sample_env] ne live
  obtain d w' where "downloadZip sample_env done_world = Inr (Some d, w')"
    and "download_entries d = map (archive_entry done_world) (selected_for_archive done_world)"
    by blast
  with entries ne live show ?thesis by auto
qed

section \<open>Object URLs\<close>

lemma two_png_world_eval:
  "addFiles sample_env [sample_png, sample_png] initial_world =
     \<lparr>images = [pending_record (js ''id0'') sample_png (js ''blob:0''),
                pending_record (js ''id1'') sample_png (js ''blob:1'')],
      isProcessing = False, isRenaming = None,
      object_urls = [js ''blob:0'' \<mapsto> blob_of_file sample_png,
                     js ''blob:1'' \<mapsto> blob_of_file sample_png],
      url_count = 2, id_count = 2, revoked = [], history = []\<rparr>"
  by (simp add: world_defs sample_object_url pending_record_def Let_def split_def)
     (simp add: sample_env_def js_def)

lemma two_done_world_eval:
  "map optimizedUrl (images two_done_world) = [Some (js ''blob:2''), Some (js ''blob:3'')] \<and>
   map status (images two_done_world) = [Completed, Completed] \<and>
   object_urls two_done_world (js ''blob:2'') = None"
  unfolding two_done_world_def two_png_world_eval
  by (simp add: processAll_def processImage_def pending_record_def sample_engine_webp Let_def)
     (simp add: world_defs sample_object_url js_def Let_def split_def)

text \<open>
  Claim C5 fails on the code. The preview URL of the only record is revoked twice by
  \<open>clearWorkspace\<close>, once by its loop and once by the cleanup of the effect. The first update
  of \<open>processImage\<close> revokes the preview URL of a record that stays in the batch. And the URL
  made for a result whose record was removed before is in no record: it is live after the
  workspace is cleared, and was never revoked.
\<close>

theorem handles_revoked_early_twice_or_never:
  "count_list (revoked (clearWorkspace one_image_world)) (js ''blob:0'') = 2 \<and>
   map preview (images (start_processing (js ''id0'') one_image_world)) = [js ''blob:0''] \<and>
   revoked (start_processing (js ''id0'') one_image_world) = [js ''blob:0''] \<and>
   object_urls (start_processing (js ''id0'') one_image_world) (js ''blob:0'') = None \<and>
   images orphan_world = [] \<and>
   object_urls orphan_world (js ''blob:1'') =
     Some \<lparr>blob_type = js ''image/webp'', blob_bytes = [1]\<rparr> \<and>
   js ''blob:1'' \<notin> set (revoked orphan_world)"
proof -
  have a: "count_list (revoked (clearWorkspace one_image_world)) (js ''blob:0'') = 2"
    unfolding one_image_world_eval
    by (simp add: world_defs pending_record_def Let_def js_def)
  have b: "map preview (images (start_processing (js ''id0'') one_image_world)) = [js ''blob:0''] \<and>
     revoked (start_processing (js ''id0'') one_image_world) = [js ''blob:0''] \<and>
     object_urls (start_processing (js ''id0'') one_image_world) (js ''blob:0'') = None"
    unfolding one_image_world_eval
    by (simp add: world_defs pending_record_def Let_def js_def)
  have c: "images orphan_world = [] \<and>
     object_urls orphan_world (js ''blob:1'') =
       Some \<lparr>blob_type = js ''image/webp'', blob_bytes = [1]\<rparr> \<and>
     js ''blob:1'' \<notin> set (revoked orphan_world)"
    unfolding orphan_world_def one_image_world_eval
    by (simp add: processImage_def pending_record_def sample_engine_webp Let_def)
       (simp add: world_defs sample_object_url js_def Let_def split_def)
  from a b c show ?thesis by blast
qed

text \<open>
  Claim C9 fails on the code. After a run over two files both records are completed and hold
  a result URL, but the first URL was revoked by the cleanup of the effect when the second
  record was updated: the fetch of \<open>downloadZip\<close> is rejected and no archive is made.
\<close>

theorem archive_fails_after_two_images:
  "map status (images two_done_world) = [Completed, Completed] \<and>
   map optimizedUrl (images two_done_world) = [Some (js ''blob:2''), Some (js ''blob:3'')] \<and>
   object_urls two_done_world (js ''blob:2'') = None \<and>
   downloadZip sample_env two_done_world = Inl FetchFailed"
proof -
  have "downloadZip sample_env two_done_world = Inl FetchFailed"
    using two_done_world_eval
    by (auto simp: downloadZip_def Let_def truthy_def js_def)
  with two_done_world_eval show ?thesis by blast
qed

end
